theory Spec2Isabelle
  imports Main "HOL-Library.Word" "HOL-Library.Multiset"
begin

section \<open>Data model of bank.cpp\<close>

text \<open>
  The C++ type \<^verbatim>\<open>int64_t\<close> is a 64-bit word; \<open>sint\<close> reads it as the signed value the
  program compares, \<open>unat\<close> is its conversion to \<^verbatim>\<open>size_t\<close> when it indexes a vector.
  \<^verbatim>\<open>int\<close> (the return type of the C API) is a 32-bit word.
\<close>

type_synonym int64 = "64 word"
type_synonym int32 = "32 word"

text \<open>
  \<^verbatim>\<open>Particle::Bank\<close> is declared in particle.h, which is not part of the excerpt. The only
  fields bank.cpp reads are \<^verbatim>\<open>parent_id\<close> and \<^verbatim>\<open>progeny_id\<close>; the physics fields (position,
  direction, energy, weight, ...) are copied as a block and are kept as one opaque
  component of type \<open>'p\<close>.
\<close>

record 'p Bank =
  payload :: 'p
  parent_id :: int64
  progeny_id :: int64

text \<open>
  A value-initialised site, as produced by \<^verbatim>\<open>std::vector<Particle::Bank>(n)\<close> and by
  \<^verbatim>\<open>std::make_unique<Particle::Bank[]>(n)\<close>. The value-initialised payload \<open>z\<close> is a
  parameter, since the payload type is.
\<close>

definition Bank_init :: "'p \<Rightarrow> 'p Bank" where
  "Bank_init z = \<lparr>payload = z, parent_id = 0, progeny_id = 0\<rparr>"

text \<open>
  The globals of namespace \<^verbatim>\<open>simulation\<close>. \<open>fission_bank\<close> is a \<^verbatim>\<open>unique_ptr\<close> to an array:
  \<open>None\<close> is the null pointer, \<open>Some fb\<close> an allocated array whose capacity is
  \<open>length fb\<close>. \<open>work_per_rank\<close> is declared in simulation.h and \<open>openmc_err_msg\<close> is the
  buffer behind \<^verbatim>\<open>set_errmsg\<close> (error.h); both are read or written by bank.cpp and are
  therefore part of the state.
\<close>

record 'p simulation =
  source_bank :: "'p Bank list"
  fission_bank :: "'p Bank list option"
  fission_bank_length :: int64
  fission_bank_max :: int64
  progeny_per_particle :: "int64 list"
  work_per_rank :: int64
  openmc_err_msg :: string

text \<open>
  What the C++ does where the model cannot go on: dereferencing a null \<^verbatim>\<open>unique_ptr\<close> and
  indexing past the end of an array or vector are undefined behaviour; a size that is
  negative or beyond the limits of the implementation, given to a vector or to \<^verbatim>\<open>new[]\<close>,
  throws \<^verbatim>\<open>std::length_error\<close> or \<^verbatim>\<open>std::bad_array_new_length\<close>; a request that the heap
  cannot serve throws \<^verbatim>\<open>std::bad_alloc\<close>.
\<close>

datatype fault =
  Null_Pointer | Out_Of_Range | Length_Error | Bad_Array_New_Length | Bad_Alloc

text \<open>
  What bank.cpp leaves to the C++ implementation and to the machine, as parameters of
  \<^verbatim>\<open>init_fission_bank\<close>:
  \<^item> \<open>bank_array_max\<close>, the largest \<open>n\<close> for which \<^verbatim>\<open>new Particle::Bank[n]\<close> does not throw
    \<^verbatim>\<open>std::bad_array_new_length\<close> (the byte size \<open>n * sizeof(Particle::Bank)\<close> is within the
    limit of the implementation);
  \<^item> \<open>counter_max_size\<close>, the value of \<^verbatim>\<open>std::vector<int64_t>::max_size()\<close>;
  \<^item> \<open>heap_supplies_banks n\<close>, whether the heap serves the request for an array of \<open>n\<close>
    sites;
  \<^item> \<open>heap_supplies_counters n\<close>, whether a growing counter vector gets storage for \<open>n\<close>
    elements.
\<close>

record runtime =
  bank_array_max :: nat
  counter_max_size :: nat
  heap_supplies_banks :: "nat \<Rightarrow> bool"
  heap_supplies_counters :: "nat \<Rightarrow> bool"

section \<open>Lifecycle\<close>

text \<open>\<^verbatim>\<open>free_memory_bank\<close>, lines 40-45.\<close>

definition free_memory_bank :: "'p simulation \<Rightarrow> 'p simulation" where
  "free_memory_bank s =
     s\<lparr>source_bank := [], fission_bank := None, fission_bank_length := 0\<rparr>"

text \<open>
  \<^verbatim>\<open>std::vector<int64_t>::resize(n)\<close>: a longer vector is cut to its first \<open>n\<close> elements, a
  shorter one is extended with zeros; elements that stay keep their value.
\<close>

definition resize :: "nat \<Rightarrow> int64 list \<Rightarrow> int64 list" where
  "resize n xs = take n xs @ replicate (n - length xs) 0"

text \<open>
  \<^verbatim>\<open>init_fission_bank\<close>, lines 47-53, in the order of the statements.

  Line 50, \<^verbatim>\<open>make_unique<Particle::Bank[]>(max)\<close>: a negative \<^verbatim>\<open>max\<close> converts to a \<^verbatim>\<open>size_t\<close> of
  at least \<open>2^63\<close>, whose byte size no implementation accepts; that and a \<^verbatim>\<open>max\<close> above
  \<open>bank_array_max\<close> throw \<^verbatim>\<open>std::bad_array_new_length\<close>; a request the heap does not serve
  throws \<^verbatim>\<open>std::bad_alloc\<close>.

  Line 52, \<^verbatim>\<open>resize(work_per_rank)\<close>: a negative \<^verbatim>\<open>work_per_rank\<close> converts to a \<^verbatim>\<open>size_t\<close> of at
  least \<open>2^63\<close>, beyond every \<^verbatim>\<open>max_size()\<close>, and throws \<^verbatim>\<open>std::length_error\<close>. A vector that
  is already long enough is cut and nothing is requested. A vector that must grow throws
  \<^verbatim>\<open>std::length_error\<close> when the new size is above \<^verbatim>\<open>max_size()\<close>, and \<^verbatim>\<open>std::bad_alloc\<close> when it
  does not get its storage.
\<close>

definition init_fission_bank ::
  "runtime \<Rightarrow> 'p \<Rightarrow> int64 \<Rightarrow> 'p simulation \<Rightarrow> fault + 'p simulation" where
  "init_fission_bank rt z maxv s =
     (let n = nat (sint (work_per_rank s))
      in if sint maxv < 0 \<or> bank_array_max rt < nat (sint maxv) then Inl Bad_Array_New_Length
         else if \<not> heap_supplies_banks rt (nat (sint maxv)) then Inl Bad_Alloc
         else if sint (work_per_rank s) < 0 then Inl Length_Error
         else if length (progeny_per_particle s) < n \<and> counter_max_size rt < n
           then Inl Length_Error
         else if length (progeny_per_particle s) < n \<and> \<not> heap_supplies_counters rt n
           then Inl Bad_Alloc
         else Inr (s\<lparr>fission_bank_max := maxv,
                     fission_bank := Some (replicate (nat (sint maxv)) (Bank_init z)),
                     fission_bank_length := 0,
                     progeny_per_particle := resize n (progeny_per_particle s)\<rparr>))"

section \<open>Sorting the fission bank\<close>

text \<open>
  The scan loop of lines 72-76, entered at \<open>i\<close> with the carried \<^verbatim>\<open>tmp\<close>. The counter is
  an \<^verbatim>\<open>int64_t\<close> compared with \<^verbatim>\<open>size()\<close>; a vector has fewer than \<open>2^63\<close> elements, so
  the counter does not wrap and is a natural number here. The additions are 64-bit.
\<close>

function scan_loop :: "nat \<Rightarrow> int64 \<Rightarrow> int64 list \<Rightarrow> int64 list" where
  "scan_loop i tmp pp =
     (if i < length pp
      then (let value = pp ! (i - 1) + tmp;
                tmp' = pp ! i
            in scan_loop (Suc i) tmp' (pp[i := value]))
      else pp)"
  by pat_completeness auto
termination
  by (relation "measure (\<lambda>(i, tmp, pp). length pp - i)") auto

declare scan_loop.simps [simp del]

text \<open>Lines 70-76 on a non-empty vector: the two statements before the loop, then the loop.\<close>

definition exclusive_scan_in_place :: "int64 list \<Rightarrow> int64 list" where
  "exclusive_scan_in_place pp = (let tmp = pp ! 0 in scan_loop 1 tmp (pp[0 := 0]))"

text \<open>
  The scatter loop of lines 85-89, entered at \<open>i\<close>; \<open>n\<close> is the (non-negative)
  \<^verbatim>\<open>fission_bank_length\<close>. Every subscript of the C++ is checked here, in the order the
  C++ evaluates them.
\<close>

function scatter_loop ::
  "nat \<Rightarrow> nat \<Rightarrow> int64 list \<Rightarrow> 'p Bank list option \<Rightarrow> 'p Bank list \<Rightarrow> fault + 'p Bank list" where
  "scatter_loop i n pp fbo sorted_bank =
     (if i < n
      then (case fbo of
              None \<Rightarrow> Inl Null_Pointer
            | Some fb \<Rightarrow>
                if length fb \<le> i then Inl Out_Of_Range
                else (let site = fb ! i;
                          p = unat (parent_id site - 1)
                      in if length pp \<le> p then Inl Out_Of_Range
                         else (let idx = unat (pp ! p + progeny_id site)
                               in if length sorted_bank \<le> idx then Inl Out_Of_Range
                                  else scatter_loop (Suc i) n pp fbo (sorted_bank[idx := site]))))
      else Inr sorted_bank)"
  by pat_completeness auto
termination
  by (relation "measure (\<lambda>(i, n, pp, fbo, sorted_bank). n - i)") auto

declare scatter_loop.simps [simp del]

text \<open>The copy loop of lines 92-94.\<close>

function copy_loop ::
  "nat \<Rightarrow> nat \<Rightarrow> 'p Bank list \<Rightarrow> 'p Bank list option \<Rightarrow> fault + 'p Bank list option" where
  "copy_loop i n sorted_bank fbo =
     (if i < n
      then (case fbo of
              None \<Rightarrow> Inl Null_Pointer
            | Some fb \<Rightarrow>
                if length fb \<le> i \<or> length sorted_bank \<le> i then Inl Out_Of_Range
                else copy_loop (Suc i) n sorted_bank (Some (fb[i := sorted_bank ! i])))
      else Inr fbo)"
  by pat_completeness auto
termination
  by (relation "measure (\<lambda>(i, n, sorted_bank, fbo). n - i)") auto

declare copy_loop.simps [simp del]

text \<open>
  \<^verbatim>\<open>sort_fission_bank\<close>, lines 61-95. A negative \<^verbatim>\<open>fission_bank_length\<close> converts to a size
  beyond \<^verbatim>\<open>max_size()\<close> and makes the constructor of the scratch vector throw.
\<close>

definition sort_fission_bank :: "'p \<Rightarrow> 'p simulation \<Rightarrow> fault + 'p simulation" where
  "sort_fission_bank z s =
     (if length (progeny_per_particle s) = 0 then Inr s
      else (let pp = exclusive_scan_in_place (progeny_per_particle s)
            in if sint (fission_bank_length s) < 0 then Inl Length_Error
               else (let n = nat (sint (fission_bank_length s));
                         sorted_bank = replicate n (Bank_init z)
                     in case scatter_loop 0 n pp (fission_bank s) sorted_bank of
                          Inl e \<Rightarrow> Inl e
                        | Inr sorted_bank' \<Rightarrow>
                            (case copy_loop 0 n sorted_bank' (fission_bank s) of
                               Inl e \<Rightarrow> Inl e
                             | Inr fbo' \<Rightarrow>
                                 Inr (s\<lparr>progeny_per_particle := pp, fission_bank := fbo'\<rparr>)))))"

section \<open>C API\<close>

text \<open>
  What a \<^verbatim>\<open>void*\<close> handed to or returned by the accessors can point to: nothing, the data
  of the source bank vector, the fission bank array, or some other place of the caller.
\<close>

datatype address = Nullptr | Source_bank_data | Fission_bank_array | Elsewhere nat

text \<open>
  Modelled from the spec: \<^verbatim>\<open>set_errmsg\<close> is declared in error.h and defined outside the
  excerpt; the spec calls it the shared error-message channel. It stores the message.
\<close>

definition set_errmsg :: "string \<Rightarrow> 'p simulation \<Rightarrow> 'p simulation" where
  "set_errmsg msg s = s\<lparr>openmc_err_msg := msg\<rparr>"

text \<open>
  \<^verbatim>\<open>openmc_source_bank\<close>, lines 101-111. The caller's cells \<^verbatim>\<open>*ptr\<close> and \<^verbatim>\<open>*n\<close> are passed in
  and returned, after the return code. The value of \<^verbatim>\<open>OPENMC_E_ALLOCATE\<close> (capi.h) is a
  parameter.
\<close>

definition openmc_source_bank ::
  "int32 \<Rightarrow> address \<times> int64 \<Rightarrow> 'p simulation \<Rightarrow> int32 \<times> (address \<times> int64) \<times> 'p simulation" where
  "openmc_source_bank OPENMC_E_ALLOCATE out s =
     (if length (source_bank s) = 0
      then (OPENMC_E_ALLOCATE, out, set_errmsg ''Source bank has not been allocated.'' s)
      else (0, (Source_bank_data, of_nat (length (source_bank s))), s))"

text \<open>\<^verbatim>\<open>openmc_fission_bank\<close>, lines 113-123; \<^verbatim>\<open>get()\<close> of a null \<^verbatim>\<open>unique_ptr\<close> is the null pointer.\<close>

definition openmc_fission_bank ::
  "int32 \<Rightarrow> address \<times> int64 \<Rightarrow> 'p simulation \<Rightarrow> int32 \<times> (address \<times> int64) \<times> 'p simulation" where
  "openmc_fission_bank OPENMC_E_ALLOCATE out s =
     (if fission_bank_length s = 0
      then (OPENMC_E_ALLOCATE, out, set_errmsg ''Fission bank has not been allocated.'' s)
      else (0, (case fission_bank s of None \<Rightarrow> Nullptr | Some fb \<Rightarrow> Fission_bank_array,
                fission_bank_length s), s))"

section \<open>Appending to the fission bank\<close>

datatype capacity_error = Capacity_Overflow

text \<open>
  Modelled from the spec: \<^verbatim>\<open>FissionBank.append\<close> is called by the transport code and is not
  in bank.cpp. The spec (4.1, 7 and 8): the call reserves the next free slot by a
  fetch-and-increment of the shared length and writes the site there; if the reserved
  index would be \<open>\<ge> capacity\<close> the condition is detected and reported and nothing is
  written. The capacity is \<open>fission_bank_max\<close>; the length stays within
  \<open>0 \<le> length \<le> capacity\<close> (spec 3), so a refused call leaves the state as it was.
\<close>

definition fission_bank_append ::
  "'p Bank \<Rightarrow> 'p simulation \<Rightarrow> (capacity_error + int64) \<times> 'p simulation" where
  "fission_bank_append site s =
     (let idx = fission_bank_length s
      in if sint (fission_bank_max s) \<le> sint idx then (Inl Capacity_Overflow, s)
         else (Inr idx,
               s\<lparr>fission_bank_length := idx + 1,
                 fission_bank := map_option (\<lambda>fb. fb[nat (sint idx) := site]) (fission_bank s)\<rparr>))"

section \<open>Specification vocabulary\<close>

text \<open>
  The reference exclusive scan, as the spec words it: entry \<open>i\<close> is the sum of all
  original counts at indices \<open>< i\<close> (in 64-bit arithmetic, like \<^verbatim>\<open>std::exclusive_scan\<close> on
  \<^verbatim>\<open>int64_t\<close>).
\<close>

definition exclusive_scan :: "int64 list \<Rightarrow> int64 list" where
  "exclusive_scan xs = map (\<lambda>i. sum_list (take i xs)) [0..<length xs]"

text \<open>The live region \<open>[0, length)\<close> of the fission bank.\<close>

definition live_region :: "'p simulation \<Rightarrow> 'p Bank list" where
  "live_region s =
     (case fission_bank s of
        None \<Rightarrow> []
      | Some fb \<Rightarrow> take (nat (sint (fission_bank_length s))) fb)"

text \<open>
  The invariant of the fission bank (spec 3): \<open>0 \<le> length \<le> capacity\<close>, the capacity being
  the size of the allocated array; without an array the length is 0.
\<close>

definition fission_bank_wf :: "'p simulation \<Rightarrow> bool" where
  "fission_bank_wf s \<longleftrightarrow>
     0 \<le> sint (fission_bank_length s) \<and>
     (case fission_bank s of
        None \<Rightarrow> fission_bank_length s = 0
      | Some fb \<Rightarrow> nat (sint (fission_bank_length s)) \<le> length fb)"

text \<open>The \<^verbatim>\<open>progeny_id\<close> values of the sites of source particle \<open>i\<close> (1-based), in bank order.\<close>

definition progeny_ids :: "nat \<Rightarrow> 'p Bank list \<Rightarrow> int list" where
  "progeny_ids i sites =
     map (\<lambda>site. sint (progeny_id site))
       (filter (\<lambda>site. sint (parent_id site) = int i) sites)"

text \<open>
  The lineage invariant (spec 3) of a list of sites against the progeny counts
  \<open>c_1..c_k\<close>: every site belongs to one of the \<open>k\<close> source particles, and for each source
  particle \<open>i\<close> the counter holds the number \<open>c_i\<close> of its sites and their \<^verbatim>\<open>progeny_id\<close>
  values are exactly \<open>{0, ..., c_i - 1}\<close>, none twice.
\<close>

definition lineage_invariant :: "int64 list \<Rightarrow> 'p Bank list \<Rightarrow> bool" where
  "lineage_invariant counts sites \<longleftrightarrow>
     list_all (\<lambda>site. 1 \<le> sint (parent_id site) \<and>
                      sint (parent_id site) \<le> int (length counts)) sites \<and>
     list_all (\<lambda>t. sint (counts ! t) = int (length (progeny_ids (Suc t) sites)) \<and>
                   distinct (progeny_ids (Suc t) sites) \<and>
                   set (progeny_ids (Suc t) sites) = {0..<sint (counts ! t)})
       [0..<length counts]"

text \<open>
  The canonical position of the \<open>j\<close>-th progeny (0-based) of source particle \<open>i\<close>
  (1-based): the sum of the counts of the source particles before \<open>i\<close>, plus \<open>j\<close>.
\<close>

definition canonical_index :: "int64 list \<Rightarrow> nat \<Rightarrow> nat \<Rightarrow> nat" where
  "canonical_index counts i j = sum_list (map unat (take (i - 1) counts)) + j"

text \<open>The subscript \<^verbatim>\<open>idx\<close> that line 87 computes for a site from the offsets \<open>pp\<close>.\<close>

definition destination :: "int64 list \<Rightarrow> 'p Bank \<Rightarrow> nat" where
  "destination pp site = unat (pp ! unat (parent_id site - 1) + progeny_id site)"

section \<open>Example states\<close>

text \<open>
  The scenario of the spec (8): three source particles with progeny counts \<open>[2, 0, 1]\<close>,
  the three sites appended out of order, and one allocated slot beyond the length.
\<close>

definition scenario_state :: "nat simulation" where
  "scenario_state =
     \<lparr>source_bank = [],
      fission_bank = Some [\<lparr>payload = 7, parent_id = 3, progeny_id = 0\<rparr>,
                           \<lparr>payload = 8, parent_id = 1, progeny_id = 1\<rparr>,
                           \<lparr>payload = 9, parent_id = 1, progeny_id = 0\<rparr>,
                           \<lparr>payload = 5, parent_id = 2, progeny_id = 6\<rparr>],
      fission_bank_length = 3,
      fission_bank_max = 4,
      progeny_per_particle = [2, 0, 1],
      work_per_rank = 3,
      openmc_err_msg = []\<rparr>"

text \<open>
  Two sites that claim the same lineage (source particle 1, progeny 0) and differ in
  their payloads \<open>p\<close> and \<open>q\<close>, in a full bank of capacity 2 with the count 2 for the one
  source particle.
\<close>

definition clash_state :: "nat \<Rightarrow> nat \<Rightarrow> nat simulation" where
  "clash_state p q =
     \<lparr>source_bank = [],
      fission_bank = Some [\<lparr>payload = p, parent_id = 1, progeny_id = 0\<rparr>,
                           \<lparr>payload = q, parent_id = 1, progeny_id = 0\<rparr>],
      fission_bank_length = 2,
      fission_bank_max = 2,
      progeny_per_particle = [2],
      work_per_rank = 1,
      openmc_err_msg = []\<rparr>"

text \<open>
  The scenario after \<^verbatim>\<open>sort_fission_bank\<close>: the live region in canonical order, ProgenyCounter
  holding the offsets.
\<close>

definition scenario_sorted :: "nat simulation" where
  "scenario_sorted =
     scenario_state
       \<lparr>fission_bank := Some [\<lparr>payload = 9, parent_id = 1, progeny_id = 0\<rparr>,
                              \<lparr>payload = 8, parent_id = 1, progeny_id = 1\<rparr>,
                              \<lparr>payload = 7, parent_id = 3, progeny_id = 0\<rparr>,
                              \<lparr>payload = 5, parent_id = 2, progeny_id = 6\<rparr>],
        progeny_per_particle := [0, 2, 2]\<rparr>"

text \<open>
  A 64-bit implementation in which a site takes 96 bytes, so that \<^verbatim>\<open>new[]\<close> accepts up to
  \<open>(2^63 - 1) div 96\<close> sites and the counter vector has \<^verbatim>\<open>max_size()\<close> \<open>2^60 - 1\<close>, on a machine
  whose heap serves requests of up to 1000 elements.
\<close>

definition small_heap_runtime :: runtime where
  "small_heap_runtime =
     \<lparr>bank_array_max = 96076792050570581,
      counter_max_size = 1152921504606846975,
      heap_supplies_banks = (\<lambda>n. n \<le> 1000),
      heap_supplies_counters = (\<lambda>n. n \<le> 1000)\<rparr>"

text \<open>
  The scenario after \<^verbatim>\<open>init_fission_bank(2)\<close>: an empty bank of capacity 2.
\<close>

definition scenario_capacity_2 :: "nat simulation" where
  "scenario_capacity_2 =
     scenario_state
       \<lparr>fission_bank := Some [Bank_init 0, Bank_init 0],
        fission_bank_length := 0,
        fission_bank_max := 2\<rparr>"

text \<open>
  A state with one particle in the source bank and an empty fission bank.
\<close>

definition restart_state :: "nat simulation" where
  "restart_state =
     scenario_state\<lparr>source_bank := [Bank_init 0], fission_bank_length := 0\<rparr>"

text \<open>
  The sorted scenario after \<^verbatim>\<open>init_fission_bank(4)\<close>.
\<close>

definition scenario_reinit :: "nat simulation" where
  "scenario_reinit =
     scenario_sorted
       \<lparr>fission_bank := Some [Bank_init 0, Bank_init 0, Bank_init 0, Bank_init 0],
        fission_bank_length := 0\<rparr>"

section \<open>The scan loop\<close>

lemma sum_list_take_Suc:
  "k < length (xs :: int64 list) \<Longrightarrow> sum_list (take (Suc k) xs) = sum_list (take k xs) + xs ! k"
  by (simp add: take_Suc_conv_app_nth)

lemma scan_loop_inv:
  "0 < i \<Longrightarrow> i \<le> length orig \<Longrightarrow> pp = map (\<lambda>t. sum_list (take t orig)) [0..<i] @ drop i orig \<Longrightarrow>
   tmp = orig ! (i - 1) \<Longrightarrow> scan_loop i tmp pp = exclusive_scan orig"
proof (induction i tmp pp rule: scan_loop.induct)
  case (1 i tmp pp)
  have len: "length pp = length orig" using 1 by simp
  show ?case
  proof (cases "i < length pp")
    case False
    then have "i = length orig" using 1 len by simp
    moreover have "scan_loop i tmp pp = pp"
      using False by (simp add: scan_loop.simps[of i tmp pp])
    ultimately show ?thesis using 1(4) by (simp add: exclusive_scan_def)
  next
    case True
    obtain k where k: "i = Suc k" using 1(2) by (cases i) auto
    have a: "pp ! (i - 1) = sum_list (take k orig)"
      using 1 k by (simp add: nth_append)
    have b: "pp ! i = orig ! i" using 1 True len by (simp add: nth_append)
    have c: "pp ! (i - 1) + tmp = sum_list (take i orig)"
      using a 1(5) k True len by (simp add: sum_list_take_Suc)
    have d: "pp[i := sum_list (take i orig)] =
             map (\<lambda>t. sum_list (take t orig)) [0..<Suc i] @ drop (Suc i) orig"
    proof (rule nth_equalityI)
      show "length (pp[i := sum_list (take i orig)]) =
            length (map (\<lambda>t. sum_list (take t orig)) [0..<Suc i] @ drop (Suc i) orig)"
        using True len by simp
    next
      fix j assume "j < length (pp[i := sum_list (take i orig)])"
      then have j: "j < length orig" using len by simp
      show "pp[i := sum_list (take i orig)] ! j =
            (map (\<lambda>t. sum_list (take t orig)) [0..<Suc i] @ drop (Suc i) orig) ! j"
      proof (cases "j = i")
        case True
        then show ?thesis using j len by (simp add: nth_append del: upt_Suc)
      next
        case False
        then show ?thesis using j len 1(4) True
          by (auto simp: nth_append simp del: upt_Suc)
      qed
    qed
    have "scan_loop i tmp pp = scan_loop (Suc i) (pp ! i) (pp[i := pp ! (i - 1) + tmp])"
      using True by (simp add: scan_loop.simps[of i tmp pp] Let_def)
    also have "\<dots> = exclusive_scan orig"
    proof (rule "1.IH"[OF True refl refl])
      show "0 < Suc i" by simp
      show "Suc i \<le> length orig" using True len by simp
      show "pp[i := pp ! (i - 1) + tmp] =
            map (\<lambda>t. sum_list (take t orig)) [0..<Suc i] @ drop (Suc i) orig"
        using c d by simp
      show "pp ! i = orig ! (Suc i - 1)" using b by simp
    qed
    finally show ?thesis .
  qed
qed

lemma exclusive_scan_in_place_eq:
  "pp \<noteq> [] \<Longrightarrow> exclusive_scan_in_place pp = exclusive_scan pp"
  unfolding exclusive_scan_in_place_def Let_def
  apply (rule scan_loop_inv)
     apply simp
    apply (cases pp; simp)
   apply (cases pp; simp)
  apply simp
  done

section \<open>The scatter and copy loops\<close>

lemma scatter_loop_fold:
  assumes "n \<le> length fb"
    and "\<forall>t<n. unat (parent_id (fb ! t) - 1) < length pp \<and> destination pp (fb ! t) < length sorted_bank"
  shows "scatter_loop i n pp (Some fb) sorted_bank =
         Inr (fold (\<lambda>t acc. acc[destination pp (fb ! t) := fb ! t]) [i..<n] sorted_bank)"
  using assms
proof (induction i n pp "Some fb" sorted_bank rule: scatter_loop.induct)
  case (1 i n pp sorted_bank)
  show ?case
  proof (cases "i < n")
    case False
    then show ?thesis by (simp add: scatter_loop.simps[of i n])
  next
    case True
    let ?site = "fb ! i"
    let ?idx = "destination pp ?site"
    have r: "\<not> length fb \<le> i" "\<not> length pp \<le> unat (parent_id ?site - 1)"
      "\<not> length sorted_bank \<le> ?idx"
      using True 1(2,3) by (auto simp: not_le)
    have step: "scatter_loop i n pp (Some fb) sorted_bank =
          scatter_loop (Suc i) n pp (Some fb) (sorted_bank[?idx := ?site])"
      using True r by (simp add: scatter_loop.simps[of i n] Let_def destination_def)
    have "scatter_loop (Suc i) n pp (Some fb) (sorted_bank[?idx := ?site]) =
          Inr (fold (\<lambda>t acc. acc[destination pp (fb ! t) := fb ! t]) [Suc i..<n]
                 (sorted_bank[?idx := ?site]))"
      using "1.hyps"[OF True refl r(1) refl refl r(2) _ r(3)] 1(2,3)
      by (simp add: destination_def)
    then show ?thesis using step True by (simp add: upt_conv_Cons)
  qed
qed

lemma fold_update_length:
  "length (fold (\<lambda>t acc. acc[d t := f t]) ts acc) = length acc"
  by (induction ts arbitrary: acc) auto

lemma fold_update_other:
  "m \<notin> d ` set ts \<Longrightarrow> fold (\<lambda>t acc. acc[d t := f t]) ts acc ! m = acc ! m"
  by (induction ts arbitrary: acc) auto

lemma fold_update_hit:
  "distinct ts \<Longrightarrow> inj_on d (set ts) \<Longrightarrow> t \<in> set ts \<Longrightarrow> d t < length acc \<Longrightarrow>
   fold (\<lambda>t acc. acc[d t := f t]) ts acc ! d t = f t"
proof (induction ts arbitrary: acc)
  case Nil
  then show ?case by simp
next
  case (Cons a ts)
  show ?case
  proof (cases "t = a")
    case True
    have "d a \<notin> d ` set ts" using Cons.prems by (auto simp: inj_on_def)
    then show ?thesis using True Cons.prems by (simp add: fold_update_other)
  next
    case False
    then show ?thesis using Cons by (auto simp: inj_on_def)
  qed
qed

lemma copy_loop_nth:
  assumes "n \<le> length fb" "n \<le> length sorted_bank"
  shows "\<exists>fb'. copy_loop i n sorted_bank (Some fb) = Inr (Some fb') \<and> length fb' = length fb \<and>
           (\<forall>m<length fb. fb' ! m = (if i \<le> m \<and> m < n then sorted_bank ! m else fb ! m))"
  using assms
proof (induction i n sorted_bank "Some fb" arbitrary: fb rule: copy_loop.induct)
  case (1 i n sorted_bank)
  show ?case
  proof (cases "i < n")
    case False
    then show ?thesis by (auto simp add: copy_loop.simps[of i n])
  next
    case True
    have r: "\<not> (length fb \<le> i \<or> length sorted_bank \<le> i)" using True 1(2,3) by auto
    have step: "copy_loop i n sorted_bank (Some fb) =
          copy_loop (Suc i) n sorted_bank (Some (fb[i := sorted_bank ! i]))"
      using True r by (simp add: copy_loop.simps[of i n])
    obtain fb' where fb': "copy_loop (Suc i) n sorted_bank (Some (fb[i := sorted_bank ! i])) = Inr (Some fb')"
      "length fb' = length fb"
      "\<forall>m<length fb. fb' ! m = (if Suc i \<le> m \<and> m < n then sorted_bank ! m else fb[i := sorted_bank ! i] ! m)"
      using "1.hyps"[OF True refl r] 1(2,3) by auto
    have "\<forall>m<length fb. fb' ! m = (if i \<le> m \<and> m < n then sorted_bank ! m else fb ! m)"
    proof (intro allI impI)
      fix m assume m: "m < length fb"
      consider "m = i" | "m < i" | "Suc i \<le> m" by linarith
      then show "fb' ! m = (if i \<le> m \<and> m < n then sorted_bank ! m else fb ! m)"
        using fb'(3) True m by cases (auto simp: nth_list_update)
    qed
    then show ?thesis using step fb'(1,2) by simp
  qed
qed

lemma copy_loop_result:
  assumes "n \<le> length fb" "n = length sorted_bank"
  shows "copy_loop 0 n sorted_bank (Some fb) = Inr (Some (sorted_bank @ drop n fb))"
proof -
  obtain fb' where fb': "copy_loop 0 n sorted_bank (Some fb) = Inr (Some fb')"
    "length fb' = length fb"
    "\<forall>m<length fb. fb' ! m = (if 0 \<le> m \<and> m < n then sorted_bank ! m else fb ! m)"
    using copy_loop_nth[of n fb sorted_bank 0] assms by auto
  have "fb' = sorted_bank @ drop n fb"
    by (rule nth_equalityI) (use fb' assms in \<open>auto simp: nth_append\<close>)
  then show ?thesis using fb'(1) by simp
qed

section \<open>Blocks of progeny\<close>

lemma sum_length_filter:
  "\<forall>x\<in>set xs. g x < (k::nat) \<Longrightarrow> (\<Sum>t<k. length (filter (\<lambda>x. g x = t) xs)) = length xs"
proof (induction xs)
  case Nil
  then show ?case by simp
next
  case (Cons a xs)
  have "(\<Sum>t<k. length (filter (\<lambda>x. g x = t) (a # xs))) =
        (\<Sum>t<k. (if g a = t then 1 else 0) + length (filter (\<lambda>x. g x = t) xs))"
    by (rule sum.cong) auto
  also have "\<dots> = (\<Sum>t<k. if g a = t then 1 else 0) + length xs"
    using Cons by (simp add: sum.distrib)
  also have "(\<Sum>t<k. if g a = t then 1 else 0) = (1::nat)"
    using Cons.prems by (subst sum.delta') auto
  finally show ?case by simp
qed

lemma distinct_map_filter_nth:
  "distinct (map f (filter P xs)) \<Longrightarrow> a < length xs \<Longrightarrow> b < length xs \<Longrightarrow>
   P (xs ! a) \<Longrightarrow> P (xs ! b) \<Longrightarrow> f (xs ! a) = f (xs ! b) \<Longrightarrow> a = b"
proof (induction xs arbitrary: a b)
  case Nil
  then show ?case by simp
next
  case (Cons x xs)
  show ?case
  proof (cases a)
    case 0
    show ?thesis
    proof (cases b)
      case b0: 0
      then show ?thesis using 0 by simp
    next
      case (Suc b')
      have "xs ! b' \<in> set (filter P xs)" using Cons.prems Suc by simp
      then have "f (xs ! b') \<in> f ` set (filter P xs)" by blast
      then show ?thesis using Cons.prems 0 Suc by auto
    qed
  next
    case (Suc a')
    show ?thesis
    proof (cases b)
      case 0
      have "xs ! a' \<in> set (filter P xs)" using Cons.prems Suc by simp
      then have "f (xs ! a') \<in> f ` set (filter P xs)" by blast
      then show ?thesis using Cons.prems 0 Suc by auto
    next
      case b: (Suc b')
      have "distinct (map f (filter P xs))" using Cons.prems(1) by (simp split: if_splits)
      then have "a' = b'" using Cons.IH[of a' b'] Cons.prems Suc b by simp
      then show ?thesis using Suc b by simp
    qed
  qed
qed

lemma prefix_mono:
  fixes c :: "nat \<Rightarrow> nat"
  shows "p \<le> q \<Longrightarrow> (\<Sum>t<p. c t) \<le> (\<Sum>t<q. c t)"
  by (rule sum_mono2) auto

lemma block_layout:
  fixes g j :: "'a \<Rightarrow> nat"
  defines "c \<equiv> \<lambda>xs t. length (filter (\<lambda>x. g x = t) xs)"
  assumes rng: "\<forall>x\<in>set xs. g x < k \<and> j x < c xs (g x)"
    and dist: "\<forall>t<k. distinct (map j (filter (\<lambda>x. g x = t) xs))"
  shows "\<forall>a<length xs. (\<Sum>t<g (xs ! a). c xs t) + j (xs ! a) < length xs"
    and "inj_on (\<lambda>a. (\<Sum>t<g (xs ! a). c xs t) + j (xs ! a)) {..<length xs}"
proof -
  let ?pre = "\<lambda>p. (\<Sum>t<p. c xs t)"
  have total: "?pre k = length xs"
    unfolding c_def using rng by (intro sum_length_filter) auto
  have below: "?pre (g x) + j x < ?pre (Suc (g x))" if "x \<in> set xs" for x
    using rng that by simp
  have top: "?pre (Suc (g x)) \<le> length xs" if "x \<in> set xs" for x
  proof -
    have "Suc (g x) \<le> k" using rng that by auto
    then have "?pre (Suc (g x)) \<le> ?pre k" by (rule prefix_mono)
    then show ?thesis using total by simp
  qed
  show "\<forall>a<length xs. ?pre (g (xs ! a)) + j (xs ! a) < length xs"
    using below top by (metis less_le_trans nth_mem)
  show "inj_on (\<lambda>a. ?pre (g (xs ! a)) + j (xs ! a)) {..<length xs}"
  proof (rule inj_onI)
    fix a b
    assume a: "a \<in> {..<length xs}" and b: "b \<in> {..<length xs}"
      and eq: "?pre (g (xs ! a)) + j (xs ! a) = ?pre (g (xs ! b)) + j (xs ! b)"
    have ma: "xs ! a \<in> set xs" and mb: "xs ! b \<in> set xs" using a b by auto
    have no_less: False if "g x < g y" "x \<in> set xs" "y \<in> set xs"
      "?pre (g x) + j x = ?pre (g y) + j y" for x y
    proof -
      have "?pre (g x) + j x < ?pre (Suc (g x))" using below that by blast
      also have "\<dots> \<le> ?pre (g y)" using that(1) by (intro prefix_mono) simp
      finally show False using that(4) by simp
    qed
    have g_eq: "g (xs ! a) = g (xs ! b)"
      using no_less[of "xs ! a" "xs ! b"] no_less[of "xs ! b" "xs ! a"] ma mb eq
      by (metis linorder_neqE_nat)
    then have j_eq: "j (xs ! a) = j (xs ! b)" using eq by simp
    have "g (xs ! b) < k" using rng mb by blast
    then have "distinct (map j (filter (\<lambda>x. g x = g (xs ! b)) xs))" using dist by blast
    then show "a = b"
      using distinct_map_filter_nth[of j "\<lambda>x. g x = g (xs ! b)" xs a b] a b g_eq j_eq by simp
  qed
qed

section \<open>From 64-bit words to natural numbers\<close>

lemma unat_nonneg_sint:
  fixes w :: int64
  assumes "0 \<le> sint w"
  shows "unat w = nat (sint w)"
proof -
  have "sint w < 2 ^ 64" using sint_lt[of w] by simp
  then have "uint w = sint w"
    using assms by (simp add: uint_sint take_bit_int_eq_self)
  then show ?thesis by (simp add: unat_eq_nat_uint)
qed

lemma unat_pred_sint:
  fixes w :: int64
  assumes "1 \<le> sint w"
  shows "unat (w - 1) = nat (sint w) - 1"
proof -
  have "w \<noteq> 0" using assms by auto
  then have "unat (w - 1) = unat w - 1" by (rule unat_minus_one)
  then show ?thesis using assms by (simp add: unat_nonneg_sint)
qed

lemma unat_sum_list:
  fixes ws :: "int64 list"
  shows "sum_list (map unat ws) < 2 ^ 64 \<Longrightarrow> unat (sum_list ws) = sum_list (map unat ws)"
proof (induction ws)
  case Nil
  then show ?case by simp
next
  case (Cons w ws)
  then have ih: "unat (sum_list ws) = sum_list (map unat ws)" by simp
  have "unat w + unat (sum_list ws) < 2 ^ LENGTH(64)" using Cons.prems ih by simp
  then have "unat (w + sum_list ws) = unat w + unat (sum_list ws)"
    by (simp only: unat_add_lem)
  then show ?case using ih by simp
qed

lemma sum_list_map_take:
  fixes h :: "'a \<Rightarrow> nat"
  shows "p \<le> length xs \<Longrightarrow> sum_list (map h (take p xs)) = (\<Sum>t<p. h (xs ! t))"
proof (induction p)
  case 0
  then show ?case by simp
next
  case (Suc p)
  then show ?case by (simp add: take_Suc_conv_app_nth)
qed

section \<open>The layout under the lineage invariant\<close>

lemma distinct_map_coarser:
  assumes "distinct (map f ys)" and "\<And>x y. h x = h y \<Longrightarrow> f x = f y"
  shows "distinct (map h ys)"
proof -
  have d: "distinct ys" and i: "inj_on f (set ys)"
    using assms(1) by (simp_all add: distinct_map)
  have "inj_on h (set ys)"
  proof (rule inj_onI)
    fix x y assume x: "x \<in> set ys" and y: "y \<in> set ys" and "h x = h y"
    then have "f x = f y" by (intro assms(2))
    then show "x = y" by (rule inj_onD[OF i _ x y])
  qed
  then show ?thesis using d by (simp add: distinct_map)
qed

lemma lineage_layout:
  fixes counts :: "int64 list" and sites :: "'p Bank list"
  assumes inv: "lineage_invariant counts sites" and small: "length sites < 2 ^ 63"
  shows "\<forall>a<length sites. unat (parent_id (sites ! a) - 1) < length counts"
    and "\<forall>a<length sites. destination (exclusive_scan counts) (sites ! a) =
           canonical_index counts (nat (sint (parent_id (sites ! a))))
             (nat (sint (progeny_id (sites ! a))))"
    and "\<forall>a<length sites. destination (exclusive_scan counts) (sites ! a) < length sites"
    and "inj_on (\<lambda>a. destination (exclusive_scan counts) (sites ! a)) {..<length sites}"
    and "sum_list (map unat counts) = length sites"
proof -
  define k where "k = length counts"
  define g where "g = (\<lambda>x::'p Bank. unat (parent_id x - 1))"
  define j where "j = (\<lambda>x::'p Bank. unat (progeny_id x))"
  define c where "c = (\<lambda>t. length (filter (\<lambda>x. g x = t) sites))"
  have small64: "length sites < 2 ^ 64"
    by (rule less_le_trans[OF small]) simp
  have par: "1 \<le> sint (parent_id x) \<and> sint (parent_id x) \<le> int k" if "x \<in> set sites" for x
    using inv that by (simp add: lineage_invariant_def list_all_iff k_def)
  have g_eq: "g x = nat (sint (parent_id x)) - 1" if "x \<in> set sites" for x
    using par[OF that] by (simp add: g_def unat_pred_sint)
  have g_less: "g x < k" if "x \<in> set sites" for x
    using par[OF that] g_eq[OF that] by linarith
  have filt: "filter (\<lambda>site. sint (parent_id site) = int (Suc t)) sites =
              filter (\<lambda>x. g x = t) sites" for t
  proof (rule filter_cong[OF refl])
    fix x assume x: "x \<in> set sites"
    show "(sint (parent_id x) = int (Suc t)) = (g x = t)"
      using par[OF x] g_eq[OF x] by auto
  qed
  have ids: "progeny_ids (Suc t) sites =
             map (\<lambda>x. sint (progeny_id x)) (filter (\<lambda>x. g x = t) sites)" for t
    unfolding progeny_ids_def filt ..
  have per: "sint (counts ! t) = int (length (progeny_ids (Suc t) sites)) \<and>
             distinct (progeny_ids (Suc t) sites) \<and>
             set (progeny_ids (Suc t) sites) = {0..<sint (counts ! t)}" if "t < k" for t
    using inv that by (simp add: lineage_invariant_def list_all_iff k_def)
  have cnt: "unat (counts ! t) = c t" if "t < k" for t
  proof -
    have "sint (counts ! t) = int (c t)" using per[OF that] by (simp add: ids c_def)
    then show ?thesis by (simp add: unat_nonneg_sint)
  qed
  have jx: "0 \<le> sint (progeny_id x) \<and> j x = nat (sint (progeny_id x)) \<and> j x < c (g x)"
    if "x \<in> set sites" for x
  proof -
    have "sint (progeny_id x) \<in> set (progeny_ids (Suc (g x)) sites)"
      using that by (simp add: ids)
    then have "sint (progeny_id x) \<in> {0..<sint (counts ! g x)}"
      using per[OF g_less[OF that]] by simp
    moreover have "sint (counts ! g x) = int (c (g x))"
      using per[OF g_less[OF that]] by (simp add: ids c_def)
    ultimately have "0 \<le> sint (progeny_id x)" "sint (progeny_id x) < int (c (g x))" by auto
    then show ?thesis by (simp add: j_def unat_nonneg_sint)
  qed
  have dist: "distinct (map j (filter (\<lambda>x. g x = t) sites))" if "t < k" for t
  proof -
    have "distinct (map (\<lambda>x. sint (progeny_id x)) (filter (\<lambda>x. g x = t) sites))"
      using per[OF that] by (simp add: ids)
    then show ?thesis
      unfolding j_def by (rule distinct_map_coarser) (simp add: word_unat_eq_iff[symmetric])
  qed
  have rng: "\<forall>x\<in>set sites. g x < k \<and> j x < length (filter (\<lambda>y. g y = g x) sites)"
    using g_less jx unfolding c_def by blast
  have dist': "\<forall>t<k. distinct (map j (filter (\<lambda>x. g x = t) sites))"
    using dist by blast
  have lay1: "\<forall>a<length sites. (\<Sum>t<g (sites ! a). c t) + j (sites ! a) < length sites"
    unfolding c_def by (rule block_layout(1)[OF rng dist'])
  have lay2: "inj_on (\<lambda>a. (\<Sum>t<g (sites ! a). c t) + j (sites ! a)) {..<length sites}"
    unfolding c_def by (rule block_layout(2)[OF rng dist'])
  have total: "(\<Sum>t<k. c t) = length sites"
    unfolding c_def using g_less by (intro sum_length_filter) blast
  have pre_nat: "sum_list (map unat (take p counts)) = (\<Sum>t<p. c t)" if "p \<le> k" for p
  proof -
    have "sum_list (map unat (take p counts)) = (\<Sum>t<p. unat (counts ! t))"
      using that by (simp add: sum_list_map_take k_def)
    also have "\<dots> = (\<Sum>t<p. c t)"
      using that by (intro sum.cong refl cnt) simp
    finally show ?thesis .
  qed
  have pre_le: "(\<Sum>t<p. c t) \<le> length sites" if "p \<le> k" for p
    using prefix_mono[OF that, of c] total by simp
  have pre: "unat (sum_list (take p counts)) = (\<Sum>t<p. c t)" if "p \<le> k" for p
  proof -
    have "sum_list (map unat (take p counts)) < 2 ^ 64"
      unfolding pre_nat[OF that] by (rule le_less_trans[OF pre_le[OF that] small64])
    then show ?thesis using pre_nat[OF that] by (simp add: unat_sum_list)
  qed
  have dest: "destination (exclusive_scan counts) (sites ! a) =
              (\<Sum>t<g (sites ! a). c t) + j (sites ! a)" if "a < length sites" for a
  proof -
    let ?x = "sites ! a"
    have x: "?x \<in> set sites" using that by simp
    have gk: "g ?x < length counts" using g_less[OF x] by (simp add: k_def)
    have off: "exclusive_scan counts ! g ?x = sum_list (take (g ?x) counts)"
      using gk by (simp add: exclusive_scan_def)
    have "(\<Sum>t<g ?x. c t) + j ?x < length sites" using lay1 that by blast
    then have "(\<Sum>t<g ?x. c t) + j ?x < 2 ^ 64" using small64 by (rule less_trans)
    moreover have "unat (sum_list (take (g ?x) counts)) = (\<Sum>t<g ?x. c t)"
      using pre[of "g ?x"] g_less[OF x] by simp
    ultimately have "unat (sum_list (take (g ?x) counts)) + unat (progeny_id ?x) < 2 ^ LENGTH(64)"
      by (simp only: j_def len_bit0 len_num1 mult_1_right numeral_times_numeral semiring_norm)
    then have "unat (sum_list (take (g ?x) counts) + progeny_id ?x) =
               unat (sum_list (take (g ?x) counts)) + unat (progeny_id ?x)"
      by (simp only: unat_add_lem)
    then show ?thesis
      using pre[of "g ?x"] g_less[OF x] off unfolding destination_def g_def j_def by simp
  qed
  show "\<forall>a<length sites. unat (parent_id (sites ! a) - 1) < length counts"
  proof (intro allI impI)
    fix a assume "a < length sites"
    then have "sites ! a \<in> set sites" by simp
    from g_less[OF this] show "unat (parent_id (sites ! a) - 1) < length counts"
      unfolding g_def k_def .
  qed
  show "\<forall>a<length sites. destination (exclusive_scan counts) (sites ! a) =
           canonical_index counts (nat (sint (parent_id (sites ! a))))
             (nat (sint (progeny_id (sites ! a))))"
  proof (intro allI impI)
    fix a assume a: "a < length sites"
    have x: "sites ! a \<in> set sites" using a by simp
    have "g (sites ! a) \<le> k" using g_less[OF x] by simp
    then have "sum_list (map unat (take (g (sites ! a)) counts)) = (\<Sum>t<g (sites ! a). c t)"
      by (rule pre_nat)
    moreover have "j (sites ! a) = nat (sint (progeny_id (sites ! a)))"
      using jx[OF x] by blast
    ultimately have "canonical_index counts (nat (sint (parent_id (sites ! a))))
             (nat (sint (progeny_id (sites ! a)))) = (\<Sum>t<g (sites ! a). c t) + j (sites ! a)"
      unfolding canonical_index_def g_eq[OF x, symmetric] by simp
    then show "destination (exclusive_scan counts) (sites ! a) =
           canonical_index counts (nat (sint (parent_id (sites ! a))))
             (nat (sint (progeny_id (sites ! a))))"
      unfolding dest[OF a] by (rule sym)
  qed
  show "\<forall>a<length sites. destination (exclusive_scan counts) (sites ! a) < length sites"
  proof (intro allI impI)
    fix a assume a: "a < length sites"
    show "destination (exclusive_scan counts) (sites ! a) < length sites"
      unfolding dest[OF a] using lay1 a by blast
  qed
  show "inj_on (\<lambda>a. destination (exclusive_scan counts) (sites ! a)) {..<length sites}"
  proof (rule inj_onI)
    fix a b
    assume a: "a \<in> {..<length sites}" and b: "b \<in> {..<length sites}"
      and eq: "destination (exclusive_scan counts) (sites ! a) =
               destination (exclusive_scan counts) (sites ! b)"
    have a': "a < length sites" and b': "b < length sites" using a b by simp_all
    have "(\<Sum>t<g (sites ! a). c t) + j (sites ! a) = (\<Sum>t<g (sites ! b). c t) + j (sites ! b)"
      using eq unfolding dest[OF a'] dest[OF b'] .
    then show "a = b" using inj_onD[OF lay2 _ a b] by blast
  qed
  have "sum_list (map unat (take k counts)) = (\<Sum>t<k. c t)"
    by (rule pre_nat) simp
  then show "sum_list (map unat counts) = length sites"
    unfolding total by (simp add: k_def)
qed

lemma length_live_region:
  "fission_bank_wf s \<Longrightarrow> length (live_region s) = nat (sint (fission_bank_length s))"
  by (auto simp: fission_bank_wf_def live_region_def split: option.splits)

lemma length_live_region_small:
  "length (live_region s) < 2 ^ 63"
proof -
  have "sint (fission_bank_length s) < 2 ^ 63" using sint_lt[of "fission_bank_length s"] by simp
  then have "nat (sint (fission_bank_length s)) < 2 ^ 63"
    by (simp only: nat_less_numeral_power_cancel_iff)
  moreover have "length (live_region s) \<le> nat (sint (fission_bank_length s))"
    by (simp add: live_region_def split: option.splits)
  ultimately show ?thesis by (rule le_less_trans[rotated])
qed

lemma sort_fission_bank_sorted:
  assumes wf: "fission_bank_wf s"
    and inv: "lineage_invariant (progeny_per_particle s) (live_region s)"
  shows "\<exists>s'. sort_fission_bank z s = Inr s' \<and>
           s' = s\<lparr>progeny_per_particle := progeny_per_particle s', fission_bank := fission_bank s'\<rparr> \<and>
           progeny_per_particle s' = exclusive_scan (progeny_per_particle s) \<and>
           fission_bank s' =
             map_option (\<lambda>fb. live_region s' @ drop (length (live_region s)) fb) (fission_bank s) \<and>
           length (live_region s') = length (live_region s) \<and>
           (\<forall>a<length (live_region s).
              live_region s' ! destination (exclusive_scan (progeny_per_particle s)) (live_region s ! a) =
              live_region s ! a)"
proof (cases "progeny_per_particle s = []")
  case True
  have "live_region s = []"
  proof (rule ccontr)
    assume "live_region s \<noteq> []"
    then obtain x where "x \<in> set (live_region s)" by (cases "live_region s") auto
    then show False using inv True by (fastforce simp: lineage_invariant_def list_all_iff)
  qed
  then have empty: "live_region s = []" .
  have mo: "map_option (\<lambda>fb. live_region s @ drop (length (live_region s)) fb) (fission_bank s) =
            fission_bank s"
    using empty by (cases "fission_bank s") simp_all
  show ?thesis
  proof (intro exI[of _ s] conjI)
    show "sort_fission_bank z s = Inr s" using True by (simp add: sort_fission_bank_def)
    show "s = s\<lparr>progeny_per_particle := progeny_per_particle s, fission_bank := fission_bank s\<rparr>"
      by simp
    show "progeny_per_particle s = exclusive_scan (progeny_per_particle s)"
      using True by (simp add: exclusive_scan_def)
    show "fission_bank s =
          map_option (\<lambda>fb. live_region s @ drop (length (live_region s)) fb) (fission_bank s)"
      by (rule mo[symmetric])
    show "length (live_region s) = length (live_region s)" by (rule refl)
    show "\<forall>a<length (live_region s).
            live_region s ! destination (exclusive_scan (progeny_per_particle s)) (live_region s ! a) =
            live_region s ! a"
      using empty by simp
  qed
next
  case False
  let ?counts = "progeny_per_particle s"
  let ?pp = "exclusive_scan ?counts"
  let ?n = "nat (sint (fission_bank_length s))"
  have scan: "exclusive_scan_in_place ?counts = ?pp"
    using False by (rule exclusive_scan_in_place_eq)
  have nonneg: "\<not> sint (fission_bank_length s) < 0" using wf by (simp add: fission_bank_wf_def)
  have len: "length (live_region s) = ?n" using wf by (rule length_live_region)
  show ?thesis
  proof (cases "fission_bank s")
    case None
    have n0: "?n = 0" using wf None by (simp add: fission_bank_wf_def)
    have sc: "scatter_loop 0 0 ?pp None [] = Inr ([] :: 'a Bank list)"
      by (simp add: scatter_loop.simps[of 0 0])
    have cp: "copy_loop 0 0 [] None = Inr (None :: 'a Bank list option)"
      by (simp add: copy_loop.simps[of 0 0])
    have "sort_fission_bank z s = Inr (s\<lparr>progeny_per_particle := ?pp, fission_bank := None\<rparr>)"
      using False nonneg n0 None scan sc cp by (simp add: sort_fission_bank_def Let_def)
    then show ?thesis using None by (simp add: live_region_def)
  next
    case (Some fb)
    have nfb: "?n \<le> length fb" using wf Some by (simp add: fission_bank_wf_def)
    have sites: "live_region s = take ?n fb" using Some by (simp add: live_region_def)
    have nth_sites: "live_region s ! a = fb ! a" if "a < ?n" for a
      using that sites by simp
    note lay = lineage_layout[OF inv length_live_region_small]
    let ?d = "\<lambda>t. destination ?pp (fb ! t)"
    let ?init = "replicate ?n (Bank_init z)"
    define out where "out = fold (\<lambda>t acc. acc[?d t := fb ! t]) [0..<?n] ?init"
    have pre: "\<forall>t<?n. unat (parent_id (fb ! t) - 1) < length ?pp \<and>
                 destination ?pp (fb ! t) < length ?init"
      using lay(1) lay(3) len nth_sites by (simp add: exclusive_scan_def)
    have sc: "scatter_loop 0 ?n ?pp (Some fb) ?init = Inr out"
      unfolding out_def by (rule scatter_loop_fold[OF nfb pre])
    have out_len: "length out = ?n" by (simp add: out_def fold_update_length)
    have cp: "copy_loop 0 ?n out (Some fb) = Inr (Some (out @ drop ?n fb))"
      by (rule copy_loop_result[OF nfb out_len[symmetric]])
    define s' where "s' = s\<lparr>progeny_per_particle := ?pp, fission_bank := Some (out @ drop ?n fb)\<rparr>"
    have run: "sort_fission_bank z s = Inr s'"
      using False nonneg Some scan sc cp by (simp add: sort_fission_bank_def Let_def s'_def)
    have live': "live_region s' = out"
      using out_len by (simp add: live_region_def s'_def)
    have inj: "inj_on ?d (set [0..<?n])"
    proof (rule inj_onI)
      fix a b assume a: "a \<in> set [0..<?n]" and b: "b \<in> set [0..<?n]" and eq: "?d a = ?d b"
      have "destination ?pp (live_region s ! a) = destination ?pp (live_region s ! b)"
        using eq a b nth_sites by simp
      then show "a = b" using inj_onD[OF lay(4)] a b len by simp
    qed
    have hit: "out ! ?d a = fb ! a" if "a < ?n" for a
      unfolding out_def
    proof (rule fold_update_hit[OF _ inj])
      show "distinct [0..<?n]" by simp
      show "a \<in> set [0..<?n]" using that by simp
      show "?d a < length ?init" using pre that by blast
    qed
    have "\<forall>a<length (live_region s). live_region s' ! destination ?pp (live_region s ! a) = live_region s ! a"
      using hit nth_sites len live' by simp
    moreover have "s' = s\<lparr>progeny_per_particle := progeny_per_particle s', fission_bank := fission_bank s'\<rparr>"
      by (simp add: s'_def)
    moreover have "fission_bank s' = map_option (\<lambda>fb. live_region s' @ drop (length (live_region s)) fb) (fission_bank s)"
      using Some live' len by (simp add: s'_def)
    moreover have "progeny_per_particle s' = ?pp" by (simp add: s'_def)
    moreover have "length (live_region s') = length (live_region s)"
      using live' out_len len by simp
    ultimately show ?thesis using run by blast
  qed
qed

lemma sum_list_take_le:
  fixes h :: "'a \<Rightarrow> nat"
  shows "sum_list (map h (take i xs)) \<le> sum_list (map h xs)"
proof -
  have "sum_list (map h xs) = sum_list (map h (take i xs)) + sum_list (map h (drop i xs))"
    by (metis append_take_drop_id map_append sum_list_append)
  then show ?thesis by simp
qed

lemma lineage_invariant_counts:
  assumes "lineage_invariant counts sites" and "t < length counts"
  shows "sint (counts ! t) = int (length (progeny_ids (Suc t) sites))"
    and "distinct (progeny_ids (Suc t) sites)"
    and "set (progeny_ids (Suc t) sites) = {0..<sint (counts ! t)}"
  using assms by (simp_all add: lineage_invariant_def list_all_iff)

lemma site_with_lineage:
  assumes inv: "lineage_invariant counts sites"
    and i: "1 \<le> i" "i \<le> length counts" and j: "j < unat (counts ! (i - 1))"
  shows "\<exists>a<length sites. sint (parent_id (sites ! a)) = int i \<and>
                            sint (progeny_id (sites ! a)) = int j"
proof -
  have t: "i - 1 < length counts" "Suc (i - 1) = i" using i by simp_all
  have per: "sint (counts ! (i - 1)) = int (length (progeny_ids i sites))"
    "set (progeny_ids i sites) = {0..<sint (counts ! (i - 1))}"
    using lineage_invariant_counts(1,3)[OF inv t(1)] unfolding t(2) by blast+
  have "unat (counts ! (i - 1)) = nat (sint (counts ! (i - 1)))"
    using per(1) by (simp add: unat_nonneg_sint)
  then have "int j \<in> {0..<sint (counts ! (i - 1))}" using j by simp
  then have "int j \<in> set (progeny_ids i sites)" using per(2) by simp
  then obtain x where x: "x \<in> set sites" "sint (parent_id x) = int i" "sint (progeny_id x) = int j"
    by (auto simp: progeny_ids_def)
  then obtain a where "a < length sites" "sites ! a = x" by (auto simp: in_set_conv_nth)
  then show ?thesis using x by blast
qed

lemma bijection_gives_same_multiset:
  assumes len: "length out = length xs"
    and inj: "inj_on d {..<length xs}"
    and rng: "\<forall>a<length xs. d a < length xs"
    and hit: "\<forall>a<length xs. out ! d a = xs ! a"
  shows "bij_betw d {..<length xs} {..<length xs}" and "mset out = mset xs"
proof -
  let ?A = "{..<length xs}"
  have "d ` ?A \<subseteq> ?A" using rng by auto
  then have img: "d ` ?A = ?A" using inj by (intro endo_inj_surj) auto
  show bij: "bij_betw d ?A ?A" using inj img by (simp add: bij_betw_def)
  have "xs = map (\<lambda>a. out ! d a) [0..<length xs]"
    by (rule nth_equalityI) (use hit in auto)
  then have "mset xs = image_mset (\<lambda>a. out ! d a) (mset_set {0..<length xs})"
    by (metis mset_map mset_upt)
  also have "\<dots> = image_mset ((!) out) (image_mset d (mset_set {0..<length xs}))"
    by (simp add: image_mset.compositionality comp_def)
  also have "image_mset d (mset_set {0..<length xs}) = mset_set (d ` {0..<length xs})"
    using inj by (intro image_mset_mset_set) (simp add: atLeast0LessThan)
  also have "d ` {0..<length xs} = {0..<length out}"
    using img len by (simp add: atLeast0LessThan)
  also have "image_mset ((!) out) (mset_set {0..<length out}) = mset (map ((!) out) [0..<length out])"
    by simp
  also have "\<dots> = mset out" by (simp add: map_nth)
  finally show "mset out = mset xs" by simp
qed

lemma lineage_invariant_mset:
  assumes eq: "mset xs = mset ys" and inv: "lineage_invariant counts xs"
  shows "lineage_invariant counts ys"
proof -
  have set_eq: "set xs = set ys" using eq by (rule mset_eq_setD)
  have ids: "mset (progeny_ids i xs) = mset (progeny_ids i ys)" for i
    by (simp add: progeny_ids_def eq)
  have len: "length (progeny_ids i xs) = length (progeny_ids i ys)" for i
    using ids[of i] by (rule mset_eq_length)
  have dist: "distinct (progeny_ids i xs) = distinct (progeny_ids i ys)" for i
    using ids[of i] by (rule mset_eq_imp_distinct_iff)
  have sets: "set (progeny_ids i xs) = set (progeny_ids i ys)" for i
    using ids[of i] by (rule mset_eq_setD)
  show ?thesis
    using inv unfolding lineage_invariant_def len dist sets set_eq list_all_iff .
qed

lemma replicate_4: "replicate 4 x = [x, x, x, x]"
  by (simp add: eval_nat_numeral)

lemma resize_nth:
  "i < n \<Longrightarrow> resize n xs ! i = (if i < length xs then xs ! i else 0)"
  by (simp add: resize_def nth_append)

lemma length_resize: "length (resize n xs) = n"
  by (simp add: resize_def)

section \<open>Properties of the specification\<close>

text \<open>
  C4. On every non-empty ProgenyCounter the in-place scan of lines 70-76 (the loop carrying
  \<^verbatim>\<open>tmp\<close>) computes the exclusive prefix sum: the result is the reference
  \<open>exclusive_scan\<close> of the original counts, entry \<open>i\<close> being the sum of the original counts
  at the indices below \<open>i\<close>. The sums are those of \<^verbatim>\<open>int64_t\<close>; when the total of the counts
  fits, they are the sums of the numbers.
\<close>

theorem scan_loop_is_exclusive_scan:
  assumes "pp \<noteq> []"
  shows "exclusive_scan_in_place pp = exclusive_scan pp \<and>
         length (exclusive_scan_in_place pp) = length pp \<and>
         (\<forall>i<length pp. exclusive_scan_in_place pp ! i = sum_list (take i pp)) \<and>
         (sum_list (map unat pp) < 2 ^ 64 \<longrightarrow>
            (\<forall>i<length pp. unat (exclusive_scan_in_place pp ! i) = sum_list (map unat (take i pp))))"
proof -
  have eq: "exclusive_scan_in_place pp = exclusive_scan pp"
    using assms by (rule exclusive_scan_in_place_eq)
  have nth: "exclusive_scan pp ! i = sum_list (take i pp)" if "i < length pp" for i
    using that by (simp add: exclusive_scan_def)
  have "unat (sum_list (take i pp)) = sum_list (map unat (take i pp))"
    if "sum_list (map unat pp) < 2 ^ 64" for i
    by (rule unat_sum_list) (rule le_less_trans[OF sum_list_take_le that])
  then show ?thesis using eq nth by (simp add: exclusive_scan_def)
qed

theorem scan_loop_is_exclusive_scan_witness:
  "[2, 0, 1] \<noteq> ([] :: int64 list) \<and>
   exclusive_scan_in_place [2, 0, 1] = exclusive_scan [2, 0, 1] \<and>
   exclusive_scan [2, 0, 1] = [0, 2, 2] \<and>
   unat (exclusive_scan_in_place [2, 0, 1] ! 2) = 2"
proof -
  have ne: "[2, 0, 1] \<noteq> ([] :: int64 list)" by simp
  have small: "sum_list (map unat [2, 0, 1 :: int64]) < 2 ^ 64" by simp
  have ref: "exclusive_scan [2, 0, 1] = [0, 2, 2]" by code_simp
  show ?thesis
    using scan_loop_is_exclusive_scan[OF ne] small ref by simp
qed

text \<open>
  C8. When ProgenyCounter is empty, \<^verbatim>\<open>sort_fission_bank\<close> returns at once and the whole state
  (fission bank contents, length, ProgenyCounter and everything else) is as before.
\<close>

theorem sort_empty_counter_is_noop:
  assumes "progeny_per_particle s = []"
  shows "sort_fission_bank z s = Inr s"
  using assms by (simp add: sort_fission_bank_def)

theorem sort_empty_counter_is_noop_witness:
  "progeny_per_particle (scenario_state\<lparr>progeny_per_particle := []\<rparr>) = [] \<and>
   sort_fission_bank 0 (scenario_state\<lparr>progeny_per_particle := []\<rparr>) =
     Inr (scenario_state\<lparr>progeny_per_particle := []\<rparr>)"
  using sort_empty_counter_is_noop[of "scenario_state\<lparr>progeny_per_particle := []\<rparr>" 0]
  by simp

text \<open>
  C1. For a fission bank within its capacity whose sites satisfy the lineage invariant
  against the counts \<open>c_1..c_k\<close> held by ProgenyCounter, \<^verbatim>\<open>sort_fission_bank\<close> returns, and
  for every source particle \<open>i\<close> (1-based, \<open>1 \<le> i \<le> k\<close>) and every \<open>j < c_i\<close> the entry at
  index \<open>(\<Sum>t<i. c_t) + j\<close> of the sorted bank is the site of the input with
  \<^verbatim>\<open>parent_id\<close> \<open>i\<close> and \<^verbatim>\<open>progeny_id\<close> \<open>j\<close>.
\<close>

theorem sorted_position_formula:
  assumes wf: "fission_bank_wf s"
    and inv: "lineage_invariant (progeny_per_particle s) (live_region s)"
  shows "\<exists>s'. sort_fission_bank z s = Inr s' \<and>
           (\<forall>i j. 1 \<le> i \<and> i \<le> length (progeny_per_particle s) \<and>
                  j < unat (progeny_per_particle s ! (i - 1)) \<longrightarrow>
              canonical_index (progeny_per_particle s) i j < length (live_region s') \<and>
              live_region s' ! canonical_index (progeny_per_particle s) i j \<in> set (live_region s) \<and>
              sint (parent_id (live_region s' ! canonical_index (progeny_per_particle s) i j)) = int i \<and>
              sint (progeny_id (live_region s' ! canonical_index (progeny_per_particle s) i j)) = int j)"
proof -
  let ?counts = "progeny_per_particle s"
  let ?sites = "live_region s"
  obtain s' where run: "sort_fission_bank z s = Inr s'"
    and len: "length (live_region s') = length ?sites"
    and hit: "\<forall>a<length ?sites.
                live_region s' ! destination (exclusive_scan ?counts) (?sites ! a) = ?sites ! a"
    using sort_fission_bank_sorted[OF wf inv, of z] by blast
  note lay = lineage_layout[OF inv length_live_region_small]
  have "canonical_index ?counts i j < length (live_region s') \<and>
        live_region s' ! canonical_index ?counts i j \<in> set ?sites \<and>
        sint (parent_id (live_region s' ! canonical_index ?counts i j)) = int i \<and>
        sint (progeny_id (live_region s' ! canonical_index ?counts i j)) = int j"
    if ij: "1 \<le> i" "i \<le> length ?counts" "j < unat (?counts ! (i - 1))" for i j
  proof -
    obtain a where a: "a < length ?sites" "sint (parent_id (?sites ! a)) = int i"
      "sint (progeny_id (?sites ! a)) = int j"
      using site_with_lineage[OF inv ij] by blast
    have "destination (exclusive_scan ?counts) (?sites ! a) = canonical_index ?counts i j"
      using lay(2) a by simp
    then have "live_region s' ! canonical_index ?counts i j = ?sites ! a"
      and "canonical_index ?counts i j < length (live_region s')"
      using hit lay(3) a(1) len by auto
    then show ?thesis using a by simp
  qed
  then show ?thesis using run by blast
qed

theorem sorted_position_formula_witness:
  "fission_bank_wf scenario_state \<and>
   lineage_invariant (progeny_per_particle scenario_state) (live_region scenario_state) \<and>
   canonical_index (progeny_per_particle scenario_state) 3 0 = 2 \<and>
   (\<exists>s'. sort_fission_bank 0 scenario_state = Inr s' \<and>
         sint (parent_id (live_region s' ! 2)) = 3 \<and>
         sint (progeny_id (live_region s' ! 2)) = 0)"
proof -
  have wf: "fission_bank_wf scenario_state" by code_simp
  have inv: "lineage_invariant (progeny_per_particle scenario_state) (live_region scenario_state)"
    by code_simp
  have idx: "canonical_index (progeny_per_particle scenario_state) 3 0 = 2"
    by (simp add: canonical_index_def scenario_state_def)
  have valid: "(1::nat) \<le> 3 \<and> 3 \<le> length (progeny_per_particle scenario_state) \<and>
               0 < unat (progeny_per_particle scenario_state ! (3 - 1))"
    by (simp add: scenario_state_def)
  obtain s' where run: "sort_fission_bank 0 scenario_state = Inr s'"
    and pos: "\<And>i j. 1 \<le> i \<and> i \<le> length (progeny_per_particle scenario_state) \<and>
                  j < unat (progeny_per_particle scenario_state ! (i - 1)) \<Longrightarrow>
              sint (parent_id (live_region s' ! canonical_index (progeny_per_particle scenario_state) i j)) = int i \<and>
              sint (progeny_id (live_region s' ! canonical_index (progeny_per_particle scenario_state) i j)) = int j"
    using sorted_position_formula[OF wf inv, of 0] by blast
  have "sint (parent_id (live_region s' ! 2)) = 3 \<and> sint (progeny_id (live_region s' ! 2)) = 0"
    using pos[OF valid] unfolding idx by simp
  then show ?thesis using wf inv idx run by blast
qed

text \<open>
  C2. Under the lineage invariant \<^verbatim>\<open>sort_fission_bank\<close> rearranges the live region
  \<open>[0, length)\<close> by a bijection: the destination index computed at line 87 maps the
  positions \<open>0..n-1\<close> one-to-one onto \<open>0..n-1\<close> (no collision, no gap), every site is found at
  its destination, and the output has the length and the multiset of the input. The counts
  add up to the number \<open>n\<close> of sites.
\<close>

theorem sort_is_permutation:
  assumes wf: "fission_bank_wf s"
    and inv: "lineage_invariant (progeny_per_particle s) (live_region s)"
  shows "sum_list (map unat (progeny_per_particle s)) = length (live_region s) \<and>
         (\<exists>s'. sort_fission_bank z s = Inr s' \<and>
           length (live_region s') = length (live_region s) \<and>
           mset (live_region s') = mset (live_region s) \<and>
           bij_betw (\<lambda>a. destination (progeny_per_particle s') (live_region s ! a))
             {..<length (live_region s)} {..<length (live_region s)} \<and>
           (\<forall>a<length (live_region s).
              live_region s' ! destination (progeny_per_particle s') (live_region s ! a) =
              live_region s ! a))"
proof -
  let ?counts = "progeny_per_particle s"
  let ?sites = "live_region s"
  obtain s' where run: "sort_fission_bank z s = Inr s'"
    and pp: "progeny_per_particle s' = exclusive_scan ?counts"
    and len: "length (live_region s') = length ?sites"
    and hit: "\<forall>a<length ?sites.
                live_region s' ! destination (exclusive_scan ?counts) (?sites ! a) = ?sites ! a"
    using sort_fission_bank_sorted[OF wf inv, of z] by blast
  note lay = lineage_layout[OF inv length_live_region_small]
  note perm = bijection_gives_same_multiset[OF len lay(4) lay(3) hit]
  have "\<exists>s'. sort_fission_bank z s = Inr s' \<and>
           length (live_region s') = length ?sites \<and>
           mset (live_region s') = mset ?sites \<and>
           bij_betw (\<lambda>a. destination (progeny_per_particle s') (?sites ! a))
             {..<length ?sites} {..<length ?sites} \<and>
           (\<forall>a<length ?sites.
              live_region s' ! destination (progeny_per_particle s') (?sites ! a) = ?sites ! a)"
    using run len perm[folded pp] hit[folded pp] by blast
  then show ?thesis using lay(5) by (rule conjI[rotated])
qed

theorem sort_is_permutation_witness:
  "fission_bank_wf scenario_state \<and>
   lineage_invariant (progeny_per_particle scenario_state) (live_region scenario_state) \<and>
   sum_list (map unat (progeny_per_particle scenario_state)) = length (live_region scenario_state) \<and>
   sort_fission_bank 0 scenario_state = Inr scenario_sorted \<and>
   length (live_region scenario_sorted) = length (live_region scenario_state) \<and>
   mset (live_region scenario_sorted) = mset (live_region scenario_state) \<and>
   0 < length (live_region scenario_state) \<and>
   destination (progeny_per_particle scenario_sorted) (live_region scenario_state ! 0) = 2 \<and>
   live_region scenario_sorted ! 2 = live_region scenario_state ! 0"
proof -
  have wf: "fission_bank_wf scenario_state" by code_simp
  have inv: "lineage_invariant (progeny_per_particle scenario_state) (live_region scenario_state)"
    by code_simp
  have run: "sort_fission_bank 0 scenario_state = Inr scenario_sorted" by code_simp
  have pos: "0 < length (live_region scenario_state)"
    by (simp add: live_region_def scenario_state_def)
  have dest: "destination (progeny_per_particle scenario_sorted) (live_region scenario_state ! 0) = 2"
    by (simp add: destination_def live_region_def scenario_state_def scenario_sorted_def)
  obtain s' where s': "sort_fission_bank 0 scenario_state = Inr s'"
    "length (live_region s') = length (live_region scenario_state)"
    "mset (live_region s') = mset (live_region scenario_state)"
    "\<forall>a<length (live_region scenario_state).
        live_region s' ! destination (progeny_per_particle s') (live_region scenario_state ! a) =
        live_region scenario_state ! a"
    using sort_is_permutation[OF wf inv, of 0] by blast
  have total: "sum_list (map unat (progeny_per_particle scenario_state)) =
               length (live_region scenario_state)"
    using sort_is_permutation[OF wf inv, of 0] by (rule conjunct1)
  have eq: "s' = scenario_sorted" using s'(1) run by simp
  have "live_region scenario_sorted ! 2 = live_region scenario_state ! 0"
    using s'(4) pos unfolding eq using dest by metis
  then show ?thesis using wf inv total run s'(2,3) pos dest unfolding eq by blast
qed

text \<open>
  C10. Under the lineage invariant \<^verbatim>\<open>sort_fission_bank\<close> leaves \<^verbatim>\<open>fission_bank_length\<close>,
  \<^verbatim>\<open>fission_bank_max\<close> and the source bank (and \<^verbatim>\<open>work_per_rank\<close> and the error message) as
  they were, keeps the capacity of the array, and changes no slot at an index
  \<open>\<ge> fission_bank_length\<close>: only the live region and ProgenyCounter are rewritten.
\<close>

theorem sort_frame:
  assumes wf: "fission_bank_wf s"
    and inv: "lineage_invariant (progeny_per_particle s) (live_region s)"
  shows "\<exists>s'. sort_fission_bank z s = Inr s' \<and>
           fission_bank_length s' = fission_bank_length s \<and>
           fission_bank_max s' = fission_bank_max s \<and>
           source_bank s' = source_bank s \<and>
           work_per_rank s' = work_per_rank s \<and>
           openmc_err_msg s' = openmc_err_msg s \<and>
           (fission_bank s = None \<longrightarrow> fission_bank s' = None) \<and>
           (\<forall>fb. fission_bank s = Some fb \<longrightarrow>
              (\<exists>fb'. fission_bank s' = Some fb' \<and> length fb' = length fb \<and>
                 (\<forall>i. nat (sint (fission_bank_length s)) \<le> i \<and> i < length fb \<longrightarrow>
                    fb' ! i = fb ! i)))"
proof -
  obtain s' where run: "sort_fission_bank z s = Inr s'"
    and frame: "s' = s\<lparr>progeny_per_particle := progeny_per_particle s',
                        fission_bank := fission_bank s'\<rparr>"
    and fb: "fission_bank s' =
             map_option (\<lambda>fb. live_region s' @ drop (length (live_region s)) fb) (fission_bank s)"
    and len: "length (live_region s') = length (live_region s)"
    using sort_fission_bank_sorted[OF wf inv, of z] by blast
  have n: "length (live_region s) = nat (sint (fission_bank_length s))"
    using wf by (rule length_live_region)
  have f1: "fission_bank_length s' = fission_bank_length s"
    by (subst frame) simp
  have f2: "fission_bank_max s' = fission_bank_max s" by (subst frame) simp
  have f3: "source_bank s' = source_bank s" by (subst frame) simp
  have f4: "work_per_rank s' = work_per_rank s" by (subst frame) simp
  have f5: "openmc_err_msg s' = openmc_err_msg s" by (subst frame) simp
  have f6: "fission_bank s = None \<longrightarrow> fission_bank s' = None" using fb by simp
  have f7: "\<exists>fb'. fission_bank s' = Some fb' \<and> length fb' = length fb0 \<and>
                 (\<forall>i. nat (sint (fission_bank_length s)) \<le> i \<and> i < length fb0 \<longrightarrow>
                    fb' ! i = fb0 ! i)" if some: "fission_bank s = Some fb0" for fb0
  proof -
    let ?n = "nat (sint (fission_bank_length s))"
    have le: "?n \<le> length fb0" using wf some by (simp add: fission_bank_wf_def)
    have eq: "fission_bank s' = Some (live_region s' @ drop ?n fb0)"
      using fb some n by simp
    have l: "length (live_region s') = ?n" using len n by simp
    have "length (live_region s' @ drop ?n fb0) = length fb0" using l le by simp
    moreover have "(live_region s' @ drop ?n fb0) ! i = fb0 ! i" if "?n \<le> i" "i < length fb0" for i
      using that l by (simp add: nth_append)
    ultimately show ?thesis using eq by blast
  qed
  have f7': "\<forall>fb. fission_bank s = Some fb \<longrightarrow>
              (\<exists>fb'. fission_bank s' = Some fb' \<and> length fb' = length fb \<and>
                 (\<forall>i. nat (sint (fission_bank_length s)) \<le> i \<and> i < length fb \<longrightarrow>
                    fb' ! i = fb ! i))"
    by (intro allI impI) (rule f7)
  show ?thesis
    by (rule exI[of _ s'], intro conjI) (rule run f1 f2 f3 f4 f5 f6 f7')+
qed

theorem sort_frame_witness:
  "fission_bank_wf scenario_state \<and>
   lineage_invariant (progeny_per_particle scenario_state) (live_region scenario_state) \<and>
   fission_bank scenario_state =
     Some [\<lparr>payload = 7, parent_id = 3, progeny_id = 0\<rparr>,
           \<lparr>payload = 8, parent_id = 1, progeny_id = 1\<rparr>,
           \<lparr>payload = 9, parent_id = 1, progeny_id = 0\<rparr>,
           \<lparr>payload = 5, parent_id = 2, progeny_id = 6\<rparr>] \<and>
   (\<exists>s' fb'. sort_fission_bank 0 scenario_state = Inr s' \<and>
         fission_bank_length s' = 3 \<and> fission_bank_max s' = 4 \<and> source_bank s' = [] \<and>
         fission_bank s' = Some fb' \<and> length fb' = 4 \<and>
         fb' ! 3 = \<lparr>payload = 5, parent_id = 2, progeny_id = 6\<rparr>) \<and>
   fission_bank_wf (free_memory_bank scenario_state\<lparr>progeny_per_particle := [0]\<rparr>) \<and>
   lineage_invariant [0] (live_region (free_memory_bank scenario_state\<lparr>progeny_per_particle := [0]\<rparr>)) \<and>
   fission_bank (free_memory_bank scenario_state\<lparr>progeny_per_particle := [0]\<rparr>) = None \<and>
   (\<exists>s'. sort_fission_bank 0 (free_memory_bank scenario_state\<lparr>progeny_per_particle := [0]\<rparr>) = Inr s' \<and>
         fission_bank s' = None \<and> fission_bank_length s' = 0)"
proof -
  let ?e = "free_memory_bank scenario_state\<lparr>progeny_per_particle := [0]\<rparr>"
  have wf: "fission_bank_wf scenario_state" by code_simp
  have inv: "lineage_invariant (progeny_per_particle scenario_state) (live_region scenario_state)"
    by code_simp
  have fb: "fission_bank scenario_state =
     Some [\<lparr>payload = 7, parent_id = 3, progeny_id = 0\<rparr>,
           \<lparr>payload = 8, parent_id = 1, progeny_id = 1\<rparr>,
           \<lparr>payload = 9, parent_id = 1, progeny_id = 0\<rparr>,
           \<lparr>payload = 5, parent_id = 2, progeny_id = 6\<rparr>]"
    by (simp add: scenario_state_def)
  have vals: "fission_bank_length scenario_state = 3" "fission_bank_max scenario_state = 4"
    "source_bank scenario_state = []" "nat (sint (fission_bank_length scenario_state)) = 3"
    by (simp_all add: scenario_state_def)
  obtain s' where s': "sort_fission_bank 0 scenario_state = Inr s'"
    "fission_bank_length s' = fission_bank_length scenario_state"
    "fission_bank_max s' = fission_bank_max scenario_state"
    "source_bank s' = source_bank scenario_state"
    "\<forall>fb. fission_bank scenario_state = Some fb \<longrightarrow>
              (\<exists>fb'. fission_bank s' = Some fb' \<and> length fb' = length fb \<and>
                 (\<forall>i. nat (sint (fission_bank_length scenario_state)) \<le> i \<and> i < length fb \<longrightarrow>
                    fb' ! i = fb ! i))"
    using sort_frame[OF wf inv, of 0] by blast
  obtain fb' where fb': "fission_bank s' = Some fb'" "length fb' = 4"
    "\<forall>i. 3 \<le> i \<and> i < 4 \<longrightarrow> fb' ! i = the (fission_bank scenario_state) ! i"
    using s'(5) unfolding vals by (auto simp: fb)
  have "fb' ! 3 = \<lparr>payload = 5, parent_id = 2, progeny_id = 6\<rparr>"
    using fb'(3) by (simp add: fb)
  then have a: "\<exists>s' fb'. sort_fission_bank 0 scenario_state = Inr s' \<and>
         fission_bank_length s' = 3 \<and> fission_bank_max s' = 4 \<and> source_bank s' = [] \<and>
         fission_bank s' = Some fb' \<and> length fb' = 4 \<and>
         fb' ! 3 = \<lparr>payload = 5, parent_id = 2, progeny_id = 6\<rparr>"
    using s'(1-4) fb'(1,2) unfolding vals by blast
  define e where "e = free_memory_bank scenario_state\<lparr>progeny_per_particle := [0]\<rparr>"
  have wfe: "fission_bank_wf e" unfolding e_def by code_simp
  have none: "fission_bank e = None" by (simp add: e_def free_memory_bank_def)
  have inve: "lineage_invariant (progeny_per_particle e) (live_region e)"
    unfolding e_def by code_simp
  have inve': "lineage_invariant [0] (live_region e)" using inve by (simp add: e_def)
  have len0: "fission_bank_length e = 0" by (simp add: e_def free_memory_bank_def)
  obtain t' where t': "sort_fission_bank 0 e = Inr t'"
    "fission_bank_length t' = fission_bank_length e"
    "fission_bank e = None \<longrightarrow> fission_bank t' = None"
    using sort_frame[OF wfe inve, of 0] by (elim exE conjE) (rule that; assumption)
  have "fission_bank t' = None" using t'(3) none by blast
  moreover have "fission_bank_length t' = 0" using t'(2) len0 by simp
  ultimately have b: "\<exists>s'. sort_fission_bank 0 e = Inr s' \<and>
         fission_bank s' = None \<and> fission_bank_length s' = 0"
    using t'(1) by blast
  have "fission_bank_wf e \<and> lineage_invariant [0] (live_region e) \<and> fission_bank e = None \<and>
        (\<exists>s'. sort_fission_bank 0 e = Inr s' \<and> fission_bank s' = None \<and> fission_bank_length s' = 0)"
    using wfe inve' none b by blast
  then have c: "fission_bank_wf ?e \<and> lineage_invariant [0] (live_region ?e) \<and> fission_bank ?e = None \<and>
        (\<exists>s'. sort_fission_bank 0 ?e = Inr s' \<and> fission_bank s' = None \<and> fission_bank_length s' = 0)"
    unfolding e_def .
  show ?thesis
    by (intro conjI) (rule wf inv fb a c[THEN conjunct1] c[THEN conjunct2, THEN conjunct1]
        c[THEN conjunct2, THEN conjunct2, THEN conjunct1]
        c[THEN conjunct2, THEN conjunct2, THEN conjunct2])+
qed

text \<open>
  C3, as stated: two bank contents that are permutations of the same multiset of sites,
  with the same counts, sort to the same sequence. This fails when two sites carry the same
  (\<^verbatim>\<open>parent_id\<close>, \<^verbatim>\<open>progeny_id\<close>): both are written to the same slot of the scratch vector, the
  later one stays, and which one is later depends on the append order.
\<close>

theorem sort_order_dependent_counterexample:
  "fission_bank_wf (clash_state 1 2) \<and> fission_bank_wf (clash_state 2 1) \<and>
   progeny_per_particle (clash_state 1 2) = progeny_per_particle (clash_state 2 1) \<and>
   mset (live_region (clash_state 1 2)) = mset (live_region (clash_state 2 1)) \<and>
   sort_fission_bank 0 (clash_state 1 2) =
     Inr ((clash_state 1 2)
            \<lparr>fission_bank := Some [\<lparr>payload = 2, parent_id = 1, progeny_id = 0\<rparr>, Bank_init 0],
             progeny_per_particle := [0]\<rparr>) \<and>
   sort_fission_bank 0 (clash_state 2 1) =
     Inr ((clash_state 2 1)
            \<lparr>fission_bank := Some [\<lparr>payload = 1, parent_id = 1, progeny_id = 0\<rparr>, Bank_init 0],
             progeny_per_particle := [0]\<rparr>) \<and>
   live_region ((clash_state 1 2)
            \<lparr>fission_bank := Some [\<lparr>payload = 2, parent_id = 1, progeny_id = 0\<rparr>, Bank_init 0],
             progeny_per_particle := [0]\<rparr>) \<noteq>
   live_region ((clash_state 2 1)
            \<lparr>fission_bank := Some [\<lparr>payload = 1, parent_id = 1, progeny_id = 0\<rparr>, Bank_init 0],
             progeny_per_particle := [0]\<rparr>)"
proof -
  have "fission_bank_wf (clash_state 1 2)" "fission_bank_wf (clash_state 2 1)"
    by (simp_all add: fission_bank_wf_def clash_state_def)
  moreover have "progeny_per_particle (clash_state 1 2) = progeny_per_particle (clash_state 2 1)"
    by (simp add: clash_state_def)
  moreover have "mset (live_region (clash_state 1 2)) = mset (live_region (clash_state 2 1))"
    by (simp add: live_region_def clash_state_def)
  moreover have "sort_fission_bank 0 (clash_state 1 2) =
     Inr ((clash_state 1 2)
            \<lparr>fission_bank := Some [\<lparr>payload = 2, parent_id = 1, progeny_id = 0\<rparr>, Bank_init 0],
             progeny_per_particle := [0]\<rparr>)"
    by code_simp
  moreover have "sort_fission_bank 0 (clash_state 2 1) =
     Inr ((clash_state 2 1)
            \<lparr>fission_bank := Some [\<lparr>payload = 1, parent_id = 1, progeny_id = 0\<rparr>, Bank_init 0],
             progeny_per_particle := [0]\<rparr>)"
    by code_simp
  moreover have "live_region ((clash_state 1 2)
            \<lparr>fission_bank := Some [\<lparr>payload = 2, parent_id = 1, progeny_id = 0\<rparr>, Bank_init 0],
             progeny_per_particle := [0]\<rparr>) \<noteq>
   live_region ((clash_state 2 1)
            \<lparr>fission_bank := Some [\<lparr>payload = 1, parent_id = 1, progeny_id = 0\<rparr>, Bank_init 0],
             progeny_per_particle := [0]\<rparr>)"
    by (simp add: live_region_def clash_state_def)
  ultimately show ?thesis by blast
qed

text \<open>
  C3, amended: for two fission banks within their capacity whose live regions are
  permutations of the same multiset of sites, with the same ProgenyCounter counts, and
  whose sites satisfy the lineage invariant against these counts, \<^verbatim>\<open>sort_fission_bank\<close>
  returns on both and produces the same live region and the same offsets.
\<close>

theorem sort_order_independent:
  assumes wf1: "fission_bank_wf s1" and wf2: "fission_bank_wf s2"
    and counts: "progeny_per_particle s1 = progeny_per_particle s2"
    and same: "mset (live_region s1) = mset (live_region s2)"
    and inv1: "lineage_invariant (progeny_per_particle s1) (live_region s1)"
  shows "\<exists>s1' s2'. sort_fission_bank z s1 = Inr s1' \<and> sort_fission_bank z s2 = Inr s2' \<and>
           live_region s1' = live_region s2' \<and>
           progeny_per_particle s1' = progeny_per_particle s2'"
proof -
  let ?counts = "progeny_per_particle s1"
  let ?pp = "exclusive_scan ?counts"
  have inv2: "lineage_invariant (progeny_per_particle s2) (live_region s2)"
    using lineage_invariant_mset[OF same inv1] counts by simp
  obtain s1' where r1: "sort_fission_bank z s1 = Inr s1'"
    and pp1: "progeny_per_particle s1' = ?pp"
    and len1: "length (live_region s1') = length (live_region s1)"
    and hit1: "\<forall>a<length (live_region s1).
                live_region s1' ! destination ?pp (live_region s1 ! a) = live_region s1 ! a"
    using sort_fission_bank_sorted[OF wf1 inv1, of z] by blast
  obtain s2' where r2: "sort_fission_bank z s2 = Inr s2'"
    and pp2: "progeny_per_particle s2' = ?pp"
    and len2: "length (live_region s2') = length (live_region s2)"
    and hit2: "\<forall>a<length (live_region s2).
                live_region s2' ! destination ?pp (live_region s2 ! a) = live_region s2 ! a"
    using sort_fission_bank_sorted[OF wf2 inv2, of z] unfolding counts[symmetric] by blast
  have n: "length (live_region s1) = length (live_region s2)"
    using same by (rule mset_eq_length)
  note lay = lineage_layout[OF inv1 length_live_region_small]
  have bij: "bij_betw (\<lambda>a. destination ?pp (live_region s1 ! a))
               {..<length (live_region s1)} {..<length (live_region s1)}"
    by (rule bijection_gives_same_multiset(1)[OF len1 lay(4) lay(3) hit1])
  have "live_region s1' = live_region s2'"
  proof (rule nth_equalityI)
    show "length (live_region s1') = length (live_region s2')" using len1 len2 n by simp
  next
    fix m assume "m < length (live_region s1')"
    then have "m \<in> {..<length (live_region s1)}" using len1 by simp
    then obtain a where a: "a < length (live_region s1)"
      "destination ?pp (live_region s1 ! a) = m"
      using bij unfolding bij_betw_def by (metis (no_types, lifting) imageE lessThan_iff)
    have "live_region s1 ! a \<in> set (live_region s2)"
      using a(1) mset_eq_setD[OF same] by (metis nth_mem)
    then obtain b where b: "b < length (live_region s2)" "live_region s2 ! b = live_region s1 ! a"
      by (auto simp: in_set_conv_nth)
    have "live_region s1' ! m = live_region s1 ! a" using hit1 a by blast
    moreover have "live_region s2' ! m = live_region s1 ! a" using hit2 b a(2) by metis
    ultimately show "live_region s1' ! m = live_region s2' ! m" by simp
  qed
  then show ?thesis using r1 r2 pp1 pp2 by simp
qed

theorem sort_order_independent_witness:
  "fission_bank_wf scenario_state \<and> fission_bank_wf scenario_sorted \<and>
   progeny_per_particle scenario_state = progeny_per_particle (scenario_sorted\<lparr>progeny_per_particle := [2, 0, 1]\<rparr>) \<and>
   mset (live_region scenario_state) = mset (live_region scenario_sorted) \<and>
   lineage_invariant (progeny_per_particle scenario_state) (live_region scenario_state) \<and>
   (\<exists>s1' s2'. sort_fission_bank 0 scenario_state = Inr s1' \<and>
      sort_fission_bank 0 (scenario_sorted\<lparr>progeny_per_particle := [2, 0, 1]\<rparr>) = Inr s2' \<and>
      live_region s1' = live_region s2')"
proof -
  let ?s2 = "scenario_sorted\<lparr>progeny_per_particle := [2, 0, 1]\<rparr>"
  have wf1: "fission_bank_wf scenario_state" by code_simp
  have wf2: "fission_bank_wf ?s2" by code_simp
  have wf2': "fission_bank_wf scenario_sorted" by code_simp
  have counts: "progeny_per_particle scenario_state = progeny_per_particle ?s2"
    by (simp add: scenario_state_def)
  have same: "mset (live_region scenario_state) = mset (live_region ?s2)"
    by (simp add: live_region_def scenario_state_def scenario_sorted_def)
  have same': "mset (live_region scenario_state) = mset (live_region scenario_sorted)"
    by (simp add: live_region_def scenario_state_def scenario_sorted_def)
  have inv: "lineage_invariant (progeny_per_particle scenario_state) (live_region scenario_state)"
    by code_simp
  show ?thesis
    using sort_order_independent[OF wf1 wf2 counts same inv, of 0] wf1 wf2' counts same' inv
    by blast
qed

text \<open>
  C5. On a fission bank whose length has reached its capacity, a further append is
  detected and reported as a capacity error and nothing is written; with capacity 2, two
  appends succeed with the indices 0 and 1 and the third is refused, the bank holding the
  two sites. (The append operation is modelled from the spec.)
\<close>

theorem append_to_full_bank_is_refused:
  "(fission_bank_length s = fission_bank_max s \<longrightarrow>
      fission_bank_append site s = (Inl Capacity_Overflow, s)) \<and>
   (init_fission_bank rt z 2 s = Inr s0 \<longrightarrow>
      (\<exists>s1 s2. fission_bank_append a s0 = (Inr 0, s1) \<and>
               fission_bank_append b s1 = (Inr 1, s2) \<and>
               fission_bank s2 = Some [a, b] \<and> fission_bank_length s2 = 2 \<and>
               fission_bank_append c s2 = (Inl Capacity_Overflow, s2)))"
proof (intro conjI impI)
  assume "fission_bank_length s = fission_bank_max s"
  then show "fission_bank_append site s = (Inl Capacity_Overflow, s)"
    by (simp add: fission_bank_append_def)
next
  assume init: "init_fission_bank rt z 2 s = Inr s0"
  have s0: "fission_bank_max s0 = 2" "fission_bank_length s0 = 0"
    "fission_bank s0 = Some [Bank_init z, Bank_init z]"
    using init by (auto simp: init_fission_bank_def Let_def numeral_2_eq_2 split: if_splits)
  define s1 where "s1 = s0\<lparr>fission_bank_length := 1, fission_bank := Some [a, Bank_init z]\<rparr>"
  define s2 where "s2 = s1\<lparr>fission_bank_length := 2, fission_bank := Some [a, b]\<rparr>"
  have a1: "fission_bank_append a s0 = (Inr 0, s1)"
    using s0 by (simp add: fission_bank_append_def s1_def)
  have a2: "fission_bank_append b s1 = (Inr 1, s2)"
    using s0 by (simp add: fission_bank_append_def s1_def s2_def)
  have a3: "fission_bank_append c s2 = (Inl Capacity_Overflow, s2)"
    using s0 by (simp add: fission_bank_append_def s1_def s2_def)
  have "fission_bank s2 = Some [a, b]" "fission_bank_length s2 = 2" by (simp_all add: s2_def)
  then show "\<exists>s1 s2. fission_bank_append a s0 = (Inr 0, s1) \<and>
               fission_bank_append b s1 = (Inr 1, s2) \<and>
               fission_bank s2 = Some [a, b] \<and> fission_bank_length s2 = 2 \<and>
               fission_bank_append c s2 = (Inl Capacity_Overflow, s2)"
    using a1 a2 a3 by blast
qed

theorem append_to_full_bank_is_refused_witness:
  "fission_bank_length (clash_state 1 2) = fission_bank_max (clash_state 1 2) \<and>
   fission_bank_append (Bank_init 3) (clash_state 1 2) = (Inl Capacity_Overflow, clash_state 1 2) \<and>
   init_fission_bank small_heap_runtime 0 2 scenario_state = Inr scenario_capacity_2 \<and>
   (\<exists>s1 s2. fission_bank_append (Bank_init 4) scenario_capacity_2 = (Inr 0, s1) \<and>
            fission_bank_append (Bank_init 5) s1 = (Inr 1, s2) \<and>
            fission_bank s2 = Some [Bank_init 4, Bank_init 5] \<and>
            fission_bank_length s2 = 2 \<and>
            fission_bank_append (Bank_init 6) s2 = (Inl Capacity_Overflow, s2))"
proof -
  have full: "fission_bank_length (clash_state 1 2) = fission_bank_max (clash_state 1 2)"
    by (simp add: clash_state_def)
  have init: "init_fission_bank small_heap_runtime 0 2 scenario_state = Inr scenario_capacity_2"
    by (simp add: init_fission_bank_def small_heap_runtime_def scenario_state_def
        scenario_capacity_2_def resize_def numeral_2_eq_2)
  have refused: "fission_bank_append (Bank_init 3) (clash_state 1 2) =
                 (Inl Capacity_Overflow, clash_state 1 2)"
    using append_to_full_bank_is_refused[where s = "clash_state 1 2" and site = "Bank_init 3"] full
    by blast
  have "\<exists>s1 s2. fission_bank_append (Bank_init 4) scenario_capacity_2 = (Inr 0, s1) \<and>
            fission_bank_append (Bank_init 5) s1 = (Inr 1, s2) \<and>
            fission_bank s2 = Some [Bank_init 4, Bank_init 5] \<and>
            fission_bank_length s2 = 2 \<and>
            fission_bank_append (Bank_init 6) s2 = (Inl Capacity_Overflow, s2)"
    using append_to_full_bank_is_refused[where s = scenario_state and z = 0
        and rt = small_heap_runtime and ?s0.0 = scenario_capacity_2 and a = "Bank_init 4" and b = "Bank_init 5"
        and c = "Bank_init 6"] init
    by blast
  then show ?thesis using full init refused by blast
qed

text \<open>
  C6. \<^verbatim>\<open>openmc_source_bank\<close> on an empty source bank, and \<^verbatim>\<open>openmc_fission_bank\<close> on a fission
  bank of length zero, return \<^verbatim>\<open>OPENMC_E_ALLOCATE\<close>, set the error message and leave the
  caller's pointer and length as they were; otherwise they return 0, leave the state as it
  was and store the data pointer and the size (respectively the array pointer and the
  length).
\<close>

theorem accessors_report_unallocated:
  "(source_bank s = [] \<longrightarrow>
      openmc_source_bank E out s =
        (E, out, s\<lparr>openmc_err_msg := ''Source bank has not been allocated.''\<rparr>)) \<and>
   (source_bank s \<noteq> [] \<longrightarrow>
      openmc_source_bank E out s =
        (0, (Source_bank_data, of_nat (length (source_bank s))), s)) \<and>
   (fission_bank_length s = 0 \<longrightarrow>
      openmc_fission_bank E out s =
        (E, out, s\<lparr>openmc_err_msg := ''Fission bank has not been allocated.''\<rparr>)) \<and>
   (fission_bank_length s \<noteq> 0 \<longrightarrow>
      openmc_fission_bank E out s =
        (0, (case fission_bank s of None \<Rightarrow> Nullptr | Some fb \<Rightarrow> Fission_bank_array,
             fission_bank_length s), s)) \<and>
   (fission_bank_length s \<noteq> 0 \<and> fission_bank_wf s \<longrightarrow>
      openmc_fission_bank E out s = (0, (Fission_bank_array, fission_bank_length s), s))"
  by (auto simp: openmc_source_bank_def openmc_fission_bank_def set_errmsg_def fission_bank_wf_def
           split: option.splits)

theorem accessors_report_unallocated_witness:
  "source_bank scenario_state = [] \<and>
   openmc_source_bank (- 2) (Elsewhere 0, 17) scenario_state =
     (- 2, (Elsewhere 0, 17),
      scenario_state\<lparr>openmc_err_msg := ''Source bank has not been allocated.''\<rparr>) \<and>
   fission_bank_length scenario_state \<noteq> 0 \<and> fission_bank_wf scenario_state \<and>
   openmc_fission_bank (- 2) (Elsewhere 0, 17) scenario_state =
     (0, (Fission_bank_array, 3), scenario_state) \<and>
   source_bank restart_state \<noteq> [] \<and>
   openmc_source_bank (- 2) (Elsewhere 0, 17) restart_state =
     (0, (Source_bank_data, 1), restart_state) \<and>
   fission_bank_length restart_state = 0 \<and>
   openmc_fission_bank (- 2) (Elsewhere 0, 17) restart_state =
     (- 2, (Elsewhere 0, 17),
      restart_state\<lparr>openmc_err_msg := ''Fission bank has not been allocated.''\<rparr>)"
proof -
  have h1: "source_bank scenario_state = []" by (simp add: scenario_state_def)
  have h2: "fission_bank_length scenario_state \<noteq> 0" by (simp add: scenario_state_def)
  have h3: "fission_bank_wf scenario_state" by code_simp
  have h4: "source_bank restart_state \<noteq> []" by (simp add: restart_state_def)
  have h5: "fission_bank_length restart_state = 0" by (simp add: restart_state_def)
  have v: "fission_bank_length scenario_state = 3" by (simp add: scenario_state_def)
  have w: "of_nat (length (source_bank restart_state)) = (1 :: int64)"
    by (simp add: restart_state_def)
  note A = accessors_report_unallocated[of scenario_state "- 2" "(Elsewhere 0, 17)"]
  note B = accessors_report_unallocated[of restart_state "- 2" "(Elsewhere 0, 17)"]
  have a1: "openmc_source_bank (- 2) (Elsewhere 0, 17) scenario_state =
     (- 2, (Elsewhere 0, 17),
      scenario_state\<lparr>openmc_err_msg := ''Source bank has not been allocated.''\<rparr>)"
    using A h1 by blast
  have a2: "openmc_fission_bank (- 2) (Elsewhere 0, 17) scenario_state =
     (0, (Fission_bank_array, 3), scenario_state)"
    using A h2 h3 unfolding v by blast
  have b1: "openmc_source_bank (- 2) (Elsewhere 0, 17) restart_state =
     (0, (Source_bank_data, 1), restart_state)"
    using B h4 unfolding w by blast
  have b2: "openmc_fission_bank (- 2) (Elsewhere 0, 17) restart_state =
     (- 2, (Elsewhere 0, 17),
      restart_state\<lparr>openmc_err_msg := ''Fission bank has not been allocated.''\<rparr>)"
    using B h5 by blast
  show ?thesis using h1 h2 h3 h4 h5 a1 a2 b1 b2 by blast
qed

text \<open>
  C7, as stated: after \<^verbatim>\<open>init_fission_bank\<close> every entry of ProgenyCounter is zero, also when
  the prior state is the one a sort left behind. This fails: \<^verbatim>\<open>resize\<close> keeps the elements
  that are already there, so the offsets \<open>[0, 2, 2]\<close> of the sorted scenario survive the
  call.
\<close>

theorem init_keeps_old_counters_counterexample:
  "sort_fission_bank 0 scenario_state = Inr scenario_sorted \<and>
   init_fission_bank small_heap_runtime 0 4 scenario_sorted = Inr scenario_reinit \<and>
   work_per_rank scenario_sorted = 3 \<and>
   progeny_per_particle scenario_reinit = [0, 2, 2]"
proof -
  have "sort_fission_bank 0 scenario_state = Inr scenario_sorted" by code_simp
  moreover have "init_fission_bank small_heap_runtime 0 4 scenario_sorted = Inr scenario_reinit"
    by (simp add: init_fission_bank_def small_heap_runtime_def scenario_state_def
        scenario_sorted_def scenario_reinit_def resize_def replicate_4)
  moreover have "work_per_rank scenario_sorted = 3"
    by (simp add: scenario_sorted_def scenario_state_def)
  moreover have "progeny_per_particle scenario_reinit = [0, 2, 2]"
    by (simp add: scenario_reinit_def scenario_sorted_def)
  ultimately show ?thesis by blast
qed

text \<open>
  C7, amended: for every prior state, \<^verbatim>\<open>init_fission_bank(max)\<close> with \<open>n\<close> locally-owned source
  particles returns exactly when both of its allocations succeed: \<open>max \<ge> 0\<close> is within the
  array limit of the implementation and the heap supplies the array, \<open>n \<ge> 0\<close>, and a
  ProgenyCounter that has to grow stays within \<^verbatim>\<open>max_size()\<close> and gets its storage. Whenever
  it returns, ProgenyCounter has length \<open>n\<close>, its entries below the prior length keep their
  prior values and the entries beyond are zero; every entry is zero when the retained prior
  entries were.
\<close>

theorem init_resizes_progeny_counter:
  "((\<exists>s'. init_fission_bank rt z maxv s = Inr s') \<longleftrightarrow>
      0 \<le> sint maxv \<and> nat (sint maxv) \<le> bank_array_max rt \<and>
      heap_supplies_banks rt (nat (sint maxv)) \<and>
      0 \<le> sint (work_per_rank s) \<and>
      (length (progeny_per_particle s) < nat (sint (work_per_rank s)) \<longrightarrow>
         nat (sint (work_per_rank s)) \<le> counter_max_size rt \<and>
         heap_supplies_counters rt (nat (sint (work_per_rank s))))) \<and>
   (\<forall>s'. init_fission_bank rt z maxv s = Inr s' \<longrightarrow>
      length (progeny_per_particle s') = nat (sint (work_per_rank s)) \<and>
      (\<forall>i<length (progeny_per_particle s').
         progeny_per_particle s' ! i =
           (if i < length (progeny_per_particle s) then progeny_per_particle s ! i else 0)) \<and>
      ((\<forall>i<min (length (progeny_per_particle s)) (nat (sint (work_per_rank s))).
          progeny_per_particle s ! i = 0) \<longrightarrow>
       (\<forall>i<length (progeny_per_particle s'). progeny_per_particle s' ! i = 0)))"
proof (rule conjI)
  show "(\<exists>s'. init_fission_bank rt z maxv s = Inr s') \<longleftrightarrow>
      0 \<le> sint maxv \<and> nat (sint maxv) \<le> bank_array_max rt \<and>
      heap_supplies_banks rt (nat (sint maxv)) \<and>
      0 \<le> sint (work_per_rank s) \<and>
      (length (progeny_per_particle s) < nat (sint (work_per_rank s)) \<longrightarrow>
         nat (sint (work_per_rank s)) \<le> counter_max_size rt \<and>
         heap_supplies_counters rt (nat (sint (work_per_rank s))))"
    by (simp add: init_fission_bank_def Let_def not_less not_le)
next
  let ?n = "nat (sint (work_per_rank s))"
  have post: "length (progeny_per_particle s') = ?n \<and>
      (\<forall>i<length (progeny_per_particle s').
         progeny_per_particle s' ! i =
           (if i < length (progeny_per_particle s) then progeny_per_particle s ! i else 0)) \<and>
      ((\<forall>i<min (length (progeny_per_particle s)) ?n. progeny_per_particle s ! i = 0) \<longrightarrow>
       (\<forall>i<length (progeny_per_particle s'). progeny_per_particle s' ! i = 0))"
    if run: "init_fission_bank rt z maxv s = Inr s'" for s'
  proof -
    have pp: "progeny_per_particle s' = resize ?n (progeny_per_particle s)"
      using run by (auto simp: init_fission_bank_def Let_def split: if_splits)
    have len: "length (progeny_per_particle s') = ?n" by (simp add: pp length_resize)
    have nth: "\<forall>i<length (progeny_per_particle s').
                progeny_per_particle s' ! i =
                  (if i < length (progeny_per_particle s) then progeny_per_particle s ! i else 0)"
      using len by (simp add: pp resize_nth)
    have zero: "(\<forall>i<min (length (progeny_per_particle s)) ?n. progeny_per_particle s ! i = 0) \<longrightarrow>
       (\<forall>i<length (progeny_per_particle s'). progeny_per_particle s' ! i = 0)"
      using nth len by auto
    show ?thesis by (intro conjI) (rule len nth zero)+
  qed
  show "\<forall>s'. init_fission_bank rt z maxv s = Inr s' \<longrightarrow>
      length (progeny_per_particle s') = ?n \<and>
      (\<forall>i<length (progeny_per_particle s').
         progeny_per_particle s' ! i =
           (if i < length (progeny_per_particle s) then progeny_per_particle s ! i else 0)) \<and>
      ((\<forall>i<min (length (progeny_per_particle s)) ?n. progeny_per_particle s ! i = 0) \<longrightarrow>
       (\<forall>i<length (progeny_per_particle s'). progeny_per_particle s' ! i = 0))"
    using post by blast
qed

theorem init_resizes_progeny_counter_witness:
  "(\<exists>s'. init_fission_bank small_heap_runtime 0 4 scenario_sorted = Inr s' \<and>
         length (progeny_per_particle s') = 3 \<and>
         progeny_per_particle s' ! 1 = progeny_per_particle scenario_sorted ! 1) \<and>
   (\<exists>s'. init_fission_bank small_heap_runtime 0 4 (scenario_capacity_2\<lparr>progeny_per_particle := []\<rparr>) = Inr s' \<and>
         length (progeny_per_particle s') = 3 \<and>
         (\<forall>i<length (progeny_per_particle s'). progeny_per_particle s' ! i = 0)) \<and>
   \<not> (\<exists>s'. init_fission_bank small_heap_runtime 0 4611686018427387904 scenario_sorted = Inr s') \<and>
   \<not> (\<exists>s'. init_fission_bank small_heap_runtime 0 4
              (scenario_capacity_2\<lparr>work_per_rank := 1152921504606846976\<rparr>) = Inr s') \<and>
   \<not> (\<exists>s'. init_fission_bank small_heap_runtime 0 2000 scenario_sorted = Inr s')"
proof -
  define e where "e = scenario_capacity_2\<lparr>progeny_per_particle := []\<rparr>"
  define w where "w = scenario_capacity_2\<lparr>work_per_rank := 1152921504606846976\<rparr>"
  note T = init_resizes_progeny_counter[where rt = small_heap_runtime and z = "0::nat"]
  have rt: "bank_array_max small_heap_runtime = 96076792050570581"
    "counter_max_size small_heap_runtime = 1152921504606846975"
    "heap_supplies_banks small_heap_runtime = (\<lambda>n. n \<le> 1000)"
    "heap_supplies_counters small_heap_runtime = (\<lambda>n. n \<le> 1000)"
    by (simp_all add: small_heap_runtime_def)
  have m4: "sint (4 :: int64) = 4" by simp
  have big: "sint (4611686018427387904 :: int64) = 4611686018427387904" by simp
  have m2000: "sint (2000 :: int64) = 2000" by simp
  have srt: "length (progeny_per_particle scenario_sorted) = 3"
    "sint (work_per_rank scenario_sorted) = 3"
    by (simp_all add: scenario_sorted_def scenario_state_def)
  have ev: "length (progeny_per_particle e) = 0" "sint (work_per_rank e) = 3"
    by (simp_all add: e_def scenario_capacity_2_def scenario_state_def)
  have wv: "length (progeny_per_particle w) = 3"
    "sint (work_per_rank w) = 1152921504606846976"
    by (simp_all add: w_def scenario_capacity_2_def scenario_state_def)
  have ra: "\<exists>s'. init_fission_bank small_heap_runtime 0 4 scenario_sorted = Inr s'"
    using T[of 4 scenario_sorted, THEN conjunct1] by (simp add: rt m4 srt)
  then obtain s' where s': "init_fission_bank small_heap_runtime 0 4 scenario_sorted = Inr s'" ..
  have sa: "length (progeny_per_particle s') = 3"
    "\<forall>i<length (progeny_per_particle s').
       progeny_per_particle s' ! i =
         (if i < length (progeny_per_particle scenario_sorted)
          then progeny_per_particle scenario_sorted ! i else 0)"
    using T[of 4 scenario_sorted, THEN conjunct2, rule_format, OF s'] by (simp_all add: srt)
  have "progeny_per_particle s' ! 1 = progeny_per_particle scenario_sorted ! 1"
    using sa by (simp add: srt)
  then have a: "\<exists>s'. init_fission_bank small_heap_runtime 0 4 scenario_sorted = Inr s' \<and>
         length (progeny_per_particle s') = 3 \<and>
         progeny_per_particle s' ! 1 = progeny_per_particle scenario_sorted ! 1"
    using s' sa(1) by blast
  have "\<exists>t'. init_fission_bank small_heap_runtime 0 4 e = Inr t'"
    using T[of 4 e, THEN conjunct1] by (simp add: rt m4 ev)
  then obtain t' where t': "init_fission_bank small_heap_runtime 0 4 e = Inr t'" ..
  have tb: "length (progeny_per_particle t') = 3"
    "(\<forall>i<min (length (progeny_per_particle e)) (nat (sint (work_per_rank e))).
          progeny_per_particle e ! i = 0) \<longrightarrow>
       (\<forall>i<length (progeny_per_particle t'). progeny_per_particle t' ! i = 0)"
    using T[of 4 e, THEN conjunct2, rule_format, OF t'] by (simp_all add: ev)
  have "\<forall>i<length (progeny_per_particle t'). progeny_per_particle t' ! i = 0"
    using tb(2) by (simp add: ev)
  then have "\<exists>s'. init_fission_bank small_heap_runtime 0 4 e = Inr s' \<and>
         length (progeny_per_particle s') = 3 \<and>
         (\<forall>i<length (progeny_per_particle s'). progeny_per_particle s' ! i = 0)"
    using t' tb(1) by blast
  then have b: "\<exists>s'. init_fission_bank small_heap_runtime 0 4 (scenario_capacity_2\<lparr>progeny_per_particle := []\<rparr>) = Inr s' \<and>
         length (progeny_per_particle s') = 3 \<and>
         (\<forall>i<length (progeny_per_particle s'). progeny_per_particle s' ! i = 0)"
    unfolding e_def .
  have c: "\<not> (\<exists>s'. init_fission_bank small_heap_runtime 0 4611686018427387904 scenario_sorted = Inr s')"
    using T[of 4611686018427387904 scenario_sorted, THEN conjunct1] by (simp add: rt big)
  have "\<not> (\<exists>s'. init_fission_bank small_heap_runtime 0 4 w = Inr s')"
    using T[of 4 w, THEN conjunct1] by (simp add: rt m4 wv)
  then have d: "\<not> (\<exists>s'. init_fission_bank small_heap_runtime 0 4
              (scenario_capacity_2\<lparr>work_per_rank := 1152921504606846976\<rparr>) = Inr s')"
    unfolding w_def .
  have f: "\<not> (\<exists>s'. init_fission_bank small_heap_runtime 0 2000 scenario_sorted = Inr s')"
    using T[of 2000 scenario_sorted, THEN conjunct1] by (simp add: rt m2000)
  show ?thesis
    by (intro conjI) (rule a b c d f)+
qed

text \<open>
  C9, as stated: \<^verbatim>\<open>free_memory_bank\<close> performs a full reset in which the counters are reset.
  This fails for ProgenyCounter (and for \<^verbatim>\<open>fission_bank_max\<close>), which the function does not
  touch: the counts \<open>[2, 0, 1]\<close> of the scenario are still there after the call.
\<close>

theorem free_memory_bank_keeps_progeny_counter_counterexample:
  "progeny_per_particle (free_memory_bank scenario_state) = [2, 0, 1] \<and>
   fission_bank_max (free_memory_bank scenario_state) = 4"
  by (simp add: free_memory_bank_def scenario_state_def)

text \<open>
  C9, amended: for every state, after \<^verbatim>\<open>free_memory_bank\<close> the source bank is empty, the
  fission bank is released and \<^verbatim>\<open>fission_bank_length\<close> is 0, while ProgenyCounter,
  \<^verbatim>\<open>fission_bank_max\<close> and the rest of the state are as before; a second call yields the
  same state as one call.
\<close>

theorem free_memory_bank_idempotent:
  "source_bank (free_memory_bank s) = [] \<and>
   fission_bank (free_memory_bank s) = None \<and>
   fission_bank_length (free_memory_bank s) = 0 \<and>
   progeny_per_particle (free_memory_bank s) = progeny_per_particle s \<and>
   fission_bank_max (free_memory_bank s) = fission_bank_max s \<and>
   work_per_rank (free_memory_bank s) = work_per_rank s \<and>
   openmc_err_msg (free_memory_bank s) = openmc_err_msg s \<and>
   free_memory_bank (free_memory_bank s) = free_memory_bank s"
  by (simp add: free_memory_bank_def)

end
